theory Spec2Isabelle
  imports Main "HOL-Library.Multiset" "HOL-Library.Multiset_Order" "HOL-Library.Product_Lexorder"
    "HOL-Library.Sublist"
begin

section \<open>Data model\<close>

text \<open>
  The event kinds are the four values of the \<^verbatim>\<open>Literal\<close> type \<^verbatim>\<open>EventKind\<close>; the
  final \<^verbatim>\<open>else: raise AssertionError\<close> of the dispatch is therefore excluded by the type
  and has no branch in the model.
\<close>

datatype EventKind = RAISE_ALERT | RAISE_CANCEL | RECV_ALERT | RECV_CANCEL

record Event =
  time :: int
  kind :: EventKind
  device :: int
  desc :: string
  src :: "int option"

text \<open>
  The field \<^verbatim>\<open>length\<close> of \<^verbatim>\<open>SimulationConfig\<close> is named \<open>length_cfg\<close>, since
  \<open>length\<close> is the list function of HOL. The dictionary \<^verbatim>\<open>propagate\<close> is a map.
  Times, device numbers and delays are Python integers: unbounded, and of either sign.
\<close>

record SimulationConfig =
  length_cfg :: int
  propagate :: "int \<rightharpoonup> (int \<times> int) list"
  initial_events :: "Event list"

section \<open>Transcript lines\<close>

text \<open>
  \<^verbatim>\<open>str(n)\<close> for a Python integer, as the f-strings of the simulation apply it: decimal
  digits, most significant first, with a leading minus sign for a negative number.
\<close>

definition digit_char :: "nat \<Rightarrow> char" where
  "digit_char n = ''0123456789'' ! n"

fun digits :: "nat \<Rightarrow> string" where
  "digits n = (if n < 10 then [digit_char n] else digits (n div 10) @ [digit_char (n mod 10)])"

declare digits.simps [simp del]

definition str_int :: "int \<Rightarrow> string" where
  "str_int i = (if i < 0 then CHR ''-'' # digits (nat (- i)) else digits (nat i))"

text \<open>The field \<^verbatim>\<open>src\<close> is \<^verbatim>\<open>Optional[int]\<close>; an f-string prints \<^verbatim>\<open>None\<close> as such.\<close>

definition str_opt :: "int option \<Rightarrow> string" where
  "str_opt x = (case x of None \<Rightarrow> ''None'' | Some i \<Rightarrow> str_int i)"

text \<open>Every line starts with an at sign, the time, a colon and a space.\<close>

definition stamp :: "int \<Rightarrow> string" where
  "stamp t = ''@'' @ str_int t @ '': ''"

definition sent_alert_line :: "int \<Rightarrow> int \<Rightarrow> string \<Rightarrow> int \<Rightarrow> string" where
  "sent_alert_line t dev dsc to =
     stamp t @ ''#'' @ str_int dev @ '' SENT ALERT TO #'' @ str_int to @ '': '' @ dsc"

definition sent_cancel_line :: "int \<Rightarrow> int \<Rightarrow> string \<Rightarrow> int \<Rightarrow> string" where
  "sent_cancel_line t dev dsc to =
     stamp t @ ''#'' @ str_int dev @ '' SENT CANCELLATION TO #'' @ str_int to @ '': '' @ dsc"

definition recv_alert_line :: "int \<Rightarrow> int \<Rightarrow> int option \<Rightarrow> string \<Rightarrow> string" where
  "recv_alert_line t dev sr dsc =
     stamp t @ ''#'' @ str_int dev @ '' RECEIVED ALERT FROM #'' @ str_opt sr @ '': '' @ dsc"

definition recv_cancel_line :: "int \<Rightarrow> int \<Rightarrow> int option \<Rightarrow> string \<Rightarrow> string" where
  "recv_cancel_line t dev sr dsc =
     stamp t @ ''#'' @ str_int dev @ '' RECEIVED CANCELLATION FROM #'' @ str_opt sr @ '': '' @ dsc"

definition end_line :: "int \<Rightarrow> string" where
  "end_line h = stamp h @ ''END''"

section \<open>Scheduler\<close>

text \<open>
  The heap holds tuples \<^verbatim>\<open>(time, seq, Event)\<close>. \<^verbatim>\<open>heapq\<close> is the standard library's
  priority queue, modelled by its contract: \<^verbatim>\<open>heappush\<close> adds an item, \<^verbatim>\<open>heappop\<close>
  removes and returns the smallest one. Python compares the tuples lexicographically,
  first by time and then by sequence number; \<open>entry_key\<close> is that pair, ordered
  lexicographically.
\<close>

type_synonym entry = "int \<times> nat \<times> Event"

definition entry_key :: "entry \<Rightarrow> int \<times> nat" where
  "entry_key e = (fst e, fst (snd e))"

definition heappush :: "entry list \<Rightarrow> entry \<Rightarrow> entry list" where
  "heappush h e = h @ [e]"

text \<open>\<open>heappop\<close> is only called on a non-empty heap (\<^verbatim>\<open>while heap:\<close>).\<close>

definition heappop :: "entry list \<Rightarrow> entry \<times> entry list" where
  "heappop h = (let m = arg_min_list entry_key h in (m, remove1 m h))"

section \<open>Cancellation ledger\<close>

text \<open>\<^verbatim>\<open>cancel_time[device][desc]\<close>: a dictionary of dictionaries.\<close>

type_synonym ledger = "int \<rightharpoonup> (string \<rightharpoonup> int)"

definition cancelled_before :: "ledger \<Rightarrow> int \<Rightarrow> string \<Rightarrow> int \<Rightarrow> bool" where
  "cancelled_before ct dev dsc t =
     (case (case ct dev of None \<Rightarrow> Map.empty | Some d \<Rightarrow> d) dsc of
        None \<Rightarrow> False
      | Some prev \<Rightarrow> prev < t)"

definition record_cancel :: "ledger \<Rightarrow> int \<Rightarrow> string \<Rightarrow> int \<Rightarrow> ledger" where
  "record_cancel ct dev dsc t =
     (let d = (case ct dev of None \<Rightarrow> Map.empty | Some d \<Rightarrow> d)
      in ct(dev \<mapsto> (case d dsc of
                       None \<Rightarrow> d(dsc \<mapsto> t)
                     | Some prev \<Rightarrow> if t < prev then d(dsc \<mapsto> t) else d)))"

text \<open>The time stored for a device and a description, if any.\<close>

definition stored :: "ledger \<Rightarrow> int \<Rightarrow> string \<Rightarrow> int option" where
  "stored ct dev dsc = (case ct dev of None \<Rightarrow> None | Some d \<Rightarrow> d dsc)"

section \<open>Simulation core\<close>

text \<open>
  The local variables of \<^verbatim>\<open>_run_simulation\<close>: the heap, the counter \<^verbatim>\<open>seq\<close>
  (\<^verbatim>\<open>itertools.count()\<close>: \<open>seq\<close> is the value the next \<^verbatim>\<open>next(seq)\<close> returns), the
  ledger and the transcript.
\<close>

record sim_state =
  heap :: "entry list"
  seq :: nat
  cancel_time :: ledger
  out :: "string list"

text \<open>\<^verbatim>\<open>cfg.propagate.get(dev, [])\<close>\<close>

definition edges :: "SimulationConfig \<Rightarrow> int \<Rightarrow> (int \<times> int) list" where
  "edges cfg dev = (case propagate cfg dev of None \<Rightarrow> [] | Some es \<Rightarrow> es)"

text \<open>
  The \<^verbatim>\<open>for to, delay in ...\<close> loop of each branch: append the line, push the
  received event with the next sequence number. The four loops differ in the line and in
  the kind of the event pushed only.
\<close>

fun send_all :: "(int \<Rightarrow> string) \<Rightarrow> EventKind \<Rightarrow> int \<Rightarrow> Event \<Rightarrow> (int \<times> int) list
    \<Rightarrow> sim_state \<Rightarrow> sim_state" where
  "send_all line k t ev [] s = s"
| "send_all line k t ev ((to, delay) # es) s =
     send_all line k t ev es
       (s\<lparr>out := out s @ [line to],
          heap := heappush (heap s)
            (t + delay, seq s,
             \<lparr>time = t + delay, kind = k, device = to, desc = desc ev, src = Some (device ev)\<rparr>),
          seq := Suc (seq s)\<rparr>)"

definition send_alerts :: "SimulationConfig \<Rightarrow> int \<Rightarrow> Event \<Rightarrow> sim_state \<Rightarrow> sim_state" where
  "send_alerts cfg t ev s =
     send_all (sent_alert_line t (device ev) (desc ev)) RECV_ALERT t ev (edges cfg (device ev)) s"

definition send_cancels :: "SimulationConfig \<Rightarrow> int \<Rightarrow> Event \<Rightarrow> sim_state \<Rightarrow> sim_state" where
  "send_cancels cfg t ev s =
     send_all (sent_cancel_line t (device ev) (desc ev)) RECV_CANCEL t ev (edges cfg (device ev)) s"

text \<open>The body of the \<^verbatim>\<open>while\<close> loop after the horizon test: the dispatch on the kind.\<close>

definition dispatch :: "SimulationConfig \<Rightarrow> int \<Rightarrow> Event \<Rightarrow> sim_state \<Rightarrow> sim_state" where
  "dispatch cfg t ev s =
     (case kind ev of
        RAISE_ALERT \<Rightarrow>
          if cancelled_before (cancel_time s) (device ev) (desc ev) t then s
          else send_alerts cfg t ev s
      | RAISE_CANCEL \<Rightarrow>
          (let s1 = s\<lparr>cancel_time := record_cancel (cancel_time s) (device ev) (desc ev) t\<rparr>
           in if cancelled_before (cancel_time s1) (device ev) (desc ev) t then s1
              else send_cancels cfg t ev s1)
      | RECV_ALERT \<Rightarrow>
          (let s1 = s\<lparr>out := out s @ [recv_alert_line t (device ev) (src ev) (desc ev)]\<rparr>
           in if cancelled_before (cancel_time s1) (device ev) (desc ev) t then s1
              else send_alerts cfg t ev s1)
      | RECV_CANCEL \<Rightarrow>
          (let s1 = s\<lparr>out := out s @ [recv_cancel_line t (device ev) (src ev) (desc ev)]\<rparr>;
               already = cancelled_before (cancel_time s1) (device ev) (desc ev) t;
               s2 = s1\<lparr>cancel_time := record_cancel (cancel_time s1) (device ev) (desc ev) t\<rparr>
           in if already then s2 else send_cancels cfg t ev s2))"

text \<open>
  One iteration of \<^verbatim>\<open>while heap:\<close>. \<open>None\<close> is the end of the loop: the heap is empty, or
  the event popped has \<^verbatim>\<open>t >= cfg.length\<close> (\<^verbatim>\<open>break\<close>).
\<close>

definition step :: "SimulationConfig \<Rightarrow> sim_state \<Rightarrow> sim_state option" where
  "step cfg s =
     (if heap s = [] then None
      else case heappop (heap s) of ((t, _, ev), h') \<Rightarrow>
        if t \<ge> length_cfg cfg then None
        else Some (dispatch cfg t ev (s\<lparr>heap := h'\<rparr>)))"

text \<open>
  The loop may run forever; \<open>None\<close> is the run that does not return. The state returned
  is the one the loop ends in.
\<close>

partial_function (option) loop :: "SimulationConfig \<Rightarrow> sim_state \<Rightarrow> sim_state option" where
  "loop cfg s = (case step cfg s of None \<Rightarrow> Some s | Some s' \<Rightarrow> loop cfg s')"

declare loop.simps [code]

text \<open>The initial events are pushed in order, numbered from 0.\<close>

fun push_initial :: "Event list \<Rightarrow> sim_state \<Rightarrow> sim_state" where
  "push_initial [] s = s"
| "push_initial (ev # evs) s =
     push_initial evs (s\<lparr>heap := heappush (heap s) (time ev, seq s, ev), seq := Suc (seq s)\<rparr>)"

definition init_state :: "SimulationConfig \<Rightarrow> sim_state" where
  "init_state cfg =
     push_initial (initial_events cfg) \<lparr>heap = [], seq = 0, cancel_time = Map.empty, out = []\<rparr>"

definition run_simulation :: "SimulationConfig \<Rightarrow> string list option" where
  "run_simulation cfg =
     (case loop cfg (init_state cfg) of
        None \<Rightarrow> None
      | Some s \<Rightarrow> Some (out s @ [end_line (length_cfg cfg)]))"

section \<open>Input and main\<close>

text \<open>
  A character of the model is a code point below 256. \<open>isspace\<close> is \<^verbatim>\<open>str.isspace\<close> on
  these: the ASCII white space with the four separators 28 to 31, the next-line
  character and the no-break space. \<open>str_strip\<close> and \<open>str_split\<close> are \<^verbatim>\<open>str.strip()\<close> and
  \<^verbatim>\<open>str.split()\<close> without arguments.
\<close>

definition isspace :: "char \<Rightarrow> bool" where
  "isspace c = (of_char c \<in> set [9, 10, 11, 12, 13, 28, 29, 30, 31, 32, 133, 160 :: nat])"

definition str_strip :: "string \<Rightarrow> string" where
  "str_strip s = rev (dropWhile isspace (rev (dropWhile isspace s)))"

function str_split :: "string \<Rightarrow> string list" where
  "str_split s =
     (case dropWhile isspace s of
        [] \<Rightarrow> []
      | c # cs \<Rightarrow> (c # takeWhile (\<lambda>x. \<not> isspace x) cs)
                  # str_split (dropWhile (\<lambda>x. \<not> isspace x) cs))"
  by pat_completeness auto
termination
proof (relation "measure length")
  show "wf (measure length)" by simp
next
  fix s :: string and c cs
  assume "dropWhile isspace s = c # cs"
  then have "length (c # cs) \<le> length s"
    by (metis length_dropWhile_le)
  moreover have "length (dropWhile (\<lambda>x. \<not> isspace x) cs) \<le> length cs"
    by (rule length_dropWhile_le)
  ultimately show "(dropWhile (\<lambda>x. \<not> isspace x) cs, s) \<in> measure length" by simp
qed
declare str_split.simps [simp del]

text \<open>
  \<^verbatim>\<open>int(w)\<close> on a word without white space, \<open>None\<close> where it raises \<^verbatim>\<open>ValueError\<close>: an
  optional sign, then decimal digits, which single underscores may separate.
\<close>

definition digit_val :: "char \<Rightarrow> nat option" where
  "digit_val c = (if c \<in> set ''0123456789'' then Some (of_char c - 48) else None)"

fun int_digits :: "nat \<Rightarrow> string \<Rightarrow> nat option" where
  "int_digits acc [] = Some acc"
| "int_digits acc [c] = (case digit_val c of None \<Rightarrow> None | Some v \<Rightarrow> Some (10 * acc + v))"
| "int_digits acc (c # d # ds) =
     (if c = CHR ''_''
      then (case digit_val d of None \<Rightarrow> None | Some v \<Rightarrow> int_digits (10 * acc + v) ds)
      else (case digit_val c of None \<Rightarrow> None | Some v \<Rightarrow> int_digits (10 * acc + v) (d # ds)))"

definition int_unsigned :: "string \<Rightarrow> nat option" where
  "int_unsigned s =
     (case s of [] \<Rightarrow> None
      | c # cs \<Rightarrow> (case digit_val c of None \<Rightarrow> None | Some v \<Rightarrow> int_digits v cs))"

definition py_int :: "string \<Rightarrow> int option" where
  "py_int s =
     (case s of [] \<Rightarrow> None
      | c # cs \<Rightarrow>
          if c = CHR ''+'' then map_option int (int_unsigned cs)
          else if c = CHR ''-'' then map_option (\<lambda>n. - int n) (int_unsigned cs)
          else map_option int (int_unsigned s))"

text \<open>
  The exceptions of \<^verbatim>\<open>_parse_input_lines\<close>: its two \<^verbatim>\<open>ValueError\<close>s, the one of \<^verbatim>\<open>int\<close>,
  and the \<^verbatim>\<open>IndexError\<close> of \<^verbatim>\<open>parts[i]\<close> on a line with too few words.
\<close>

datatype error = Unknown_line string | Missing_LENGTH | Invalid_literal string | IndexError

text \<open>The local variables of \<^verbatim>\<open>_parse_input_lines\<close>.\<close>

record parse_state =
  p_length :: "int option"
  p_devices :: "int set"
  p_propagate :: "int \<rightharpoonup> (int \<times> int) list"
  p_initial :: "Event list"

text \<open>An exception ends the evaluation: \<open>bind_result\<close> passes the first error on.\<close>

definition bind_result :: "error + 'a \<Rightarrow> ('a \<Rightarrow> error + 'b) \<Rightarrow> error + 'b" where
  "bind_result r f = (case r of Inl e \<Rightarrow> Inl e | Inr x \<Rightarrow> f x)"

definition part :: "string list \<Rightarrow> nat \<Rightarrow> error + string" where
  "part parts i = (if i < length parts then Inr (parts ! i) else Inl IndexError)"

definition to_int :: "string \<Rightarrow> error + int" where
  "to_int w = (case py_int w of None \<Rightarrow> Inl (Invalid_literal w) | Some i \<Rightarrow> Inr i)"

definition int_part :: "string list \<Rightarrow> nat \<Rightarrow> error + int" where
  "int_part parts i = bind_result (part parts i) to_int"

text \<open>The branches \<^verbatim>\<open>ALERT\<close> and \<^verbatim>\<open>CANCEL\<close>, which differ in the kind of the event.\<close>

definition raise_event :: "EventKind \<Rightarrow> string list \<Rightarrow> parse_state \<Rightarrow> error + parse_state" where
  "raise_event k parts st =
     bind_result (int_part parts 1) (\<lambda>dev.
     bind_result (part parts 2) (\<lambda>dsc.
     bind_result (int_part parts 3) (\<lambda>t.
       Inr (st\<lparr>p_initial := p_initial st @
              [\<lparr>time = t, kind = k, device = dev, desc = dsc, src = None\<rparr>]\<rparr>))))"

text \<open>The body of the loop over the lines.\<close>

definition parse_line :: "parse_state \<Rightarrow> string \<Rightarrow> error + parse_state" where
  "parse_line st raw =
     (let line = str_strip raw in
      case line of
        [] \<Rightarrow> Inr st
      | c # _ \<Rightarrow>
          if c = CHR ''#'' then Inr st
          else
            let parts = str_split line in
            case parts of
              [] \<Rightarrow> Inl IndexError
            | tag # _ \<Rightarrow>
                if tag = ''LENGTH'' then
                  bind_result (int_part parts 1) (\<lambda>n. Inr (st\<lparr>p_length := Some n\<rparr>))
                else if tag = ''DEVICE'' then
                  bind_result (int_part parts 1)
                    (\<lambda>d. Inr (st\<lparr>p_devices := insert d (p_devices st)\<rparr>))
                else if tag = ''PROPAGATE'' then
                  bind_result (int_part parts 1) (\<lambda>frm.
                  bind_result (int_part parts 2) (\<lambda>to.
                  bind_result (int_part parts 3) (\<lambda>delay.
                    Inr (st\<lparr>p_propagate := (p_propagate st)
                           (frm \<mapsto> (case p_propagate st frm of None \<Rightarrow> [] | Some es \<Rightarrow> es)
                                    @ [(to, delay)])\<rparr>))))
                else if tag = ''ALERT'' then raise_event RAISE_ALERT parts st
                else if tag = ''CANCEL'' then raise_event RAISE_CANCEL parts st
                else Inl (Unknown_line line))"

fun parse_lines :: "string list \<Rightarrow> parse_state \<Rightarrow> error + parse_state" where
  "parse_lines [] st = Inr st"
| "parse_lines (raw # lines) st =
     (case parse_line st raw of Inl e \<Rightarrow> Inl e | Inr st' \<Rightarrow> parse_lines lines st')"

text \<open>
  After the loop: \<^verbatim>\<open>Missing LENGTH\<close>, or the configuration, in which every declared
  device has a list of edges.
\<close>

definition parse_input_lines :: "string list \<Rightarrow> error + SimulationConfig" where
  "parse_input_lines lines =
     (case parse_lines lines
         \<lparr>p_length = None, p_devices = {}, p_propagate = Map.empty, p_initial = []\<rparr> of
        Inl e \<Rightarrow> Inl e
      | Inr st \<Rightarrow>
          (case p_length st of
             None \<Rightarrow> Inl Missing_LENGTH
           | Some n \<Rightarrow>
               Inr \<lparr>length_cfg = n,
                    propagate = (\<lambda>d. case p_propagate st d of
                                        Some es \<Rightarrow> Some es
                                      | None \<Rightarrow> if d \<in> p_devices st then Some [] else None),
                    initial_events = p_initial st\<rparr>))"

text \<open>
  \<^verbatim>\<open>main\<close>, as a function of what it reads: \<open>None\<close> when the file does not exist, the
  lines of the file otherwise. It prints the transcript once the simulation has
  returned; an exception of the parser leaves it before the simulation is called, with
  nothing printed.
\<close>

datatype outcome = Printed "string list" | Raised error | Diverges

definition main :: "string list option \<Rightarrow> outcome" where
  "main file =
     (case file of
        None \<Rightarrow> Printed [''FILE NOT FOUND'']
      | Some lines \<Rightarrow>
          (case parse_input_lines lines of
             Inl e \<Rightarrow> Raised e
           | Inr cfg \<Rightarrow>
               (case run_simulation cfg of
                  None \<Rightarrow> Diverges
                | Some tr \<Rightarrow> Printed tr)))"

section \<open>Notions the statements use\<close>

text \<open>A line carries the timestamp \<open>t\<close> when it starts with \<open>stamp t\<close>.\<close>

definition stamped :: "int \<Rightarrow> string \<Rightarrow> bool" where
  "stamped t l = prefix (stamp t) l"

text \<open>
  Conditions on the delays of a configuration: all strictly positive, all non-negative,
  and no cycle of edges of delay 0. The last is stated with a rank \<open>r\<close> of the devices:
  every edge has a strictly positive delay, or it has delay 0 and leads to a device of
  strictly smaller rank. A topology with a cycle of edges of delay 0 has no such rank, and a
  finite topology without one has.
\<close>

definition delays_pos :: "SimulationConfig \<Rightarrow> bool" where
  "delays_pos cfg = (\<forall>dev es. propagate cfg dev = Some es \<longrightarrow> (\<forall>(to, delay) \<in> set es. 0 < delay))"

definition delays_nonneg :: "SimulationConfig \<Rightarrow> bool" where
  "delays_nonneg cfg = (\<forall>dev es. propagate cfg dev = Some es \<longrightarrow> (\<forall>(to, delay) \<in> set es. 0 \<le> delay))"

definition delays_ranked :: "SimulationConfig \<Rightarrow> (int \<Rightarrow> nat) \<Rightarrow> bool" where
  "delays_ranked cfg r =
     (\<forall>dev es. propagate cfg dev = Some es \<longrightarrow>
        (\<forall>(to, delay) \<in> set es. 0 < delay \<or> (delay = 0 \<and> r to < r dev)))"

text \<open>The state after \<open>n\<close> iterations of the loop, if it runs that long.\<close>

fun steps :: "SimulationConfig \<Rightarrow> nat \<Rightarrow> sim_state \<Rightarrow> sim_state option" where
  "steps cfg 0 s = Some s"
| "steps cfg (Suc n) s = (case step cfg s of None \<Rightarrow> None | Some s' \<Rightarrow> steps cfg n s')"

text \<open>
  The entry an iteration pops, and the sequence number of an entry. The counter gives
  every entry pushed the next number, so an entry pushed earlier has the smaller one.
\<close>

definition popped :: "sim_state \<Rightarrow> entry" where
  "popped s = fst (heappop (heap s))"

definition entry_seq :: "entry \<Rightarrow> nat" where
  "entry_seq e = fst (snd e)"

text \<open>
  What one dispatch does, in closed form: the entries a forwarding loop pushes when the
  counter stands at \<open>n\<close>, whether the event is forwarded, and the lines appended.
\<close>

fun pushed :: "EventKind \<Rightarrow> int \<Rightarrow> Event \<Rightarrow> nat \<Rightarrow> (int \<times> int) list \<Rightarrow> entry list" where
  "pushed k t ev n [] = []"
| "pushed k t ev n ((to, delay) # es) =
     (t + delay, n,
      \<lparr>time = t + delay, kind = k, device = to, desc = desc ev, src = Some (device ev)\<rparr>)
     # pushed k t ev (Suc n) es"

definition pushed_kind :: "EventKind \<Rightarrow> EventKind" where
  "pushed_kind k = (if k = RAISE_ALERT \<or> k = RECV_ALERT then RECV_ALERT else RECV_CANCEL)"

definition forwards :: "sim_state \<Rightarrow> int \<Rightarrow> Event \<Rightarrow> bool" where
  "forwards s t ev = (\<not> cancelled_before (cancel_time s) (device ev) (desc ev) t)"

definition received_lines :: "int \<Rightarrow> Event \<Rightarrow> string list" where
  "received_lines t ev =
     (case kind ev of
        RAISE_ALERT \<Rightarrow> []
      | RAISE_CANCEL \<Rightarrow> []
      | RECV_ALERT \<Rightarrow> [recv_alert_line t (device ev) (src ev) (desc ev)]
      | RECV_CANCEL \<Rightarrow> [recv_cancel_line t (device ev) (src ev) (desc ev)])"

definition sent_lines :: "SimulationConfig \<Rightarrow> int \<Rightarrow> Event \<Rightarrow> string list" where
  "sent_lines cfg t ev =
     map (\<lambda>(to, delay).
            if kind ev = RAISE_ALERT \<or> kind ev = RECV_ALERT
            then sent_alert_line t (device ev) (desc ev) to
            else sent_cancel_line t (device ev) (desc ev) to)
         (edges cfg (device ev))"

text \<open>
  The runs of the loop when \<^verbatim>\<open>heappop\<close> is only known to return a smallest item of the
  heap, whichever way the heap arranges its items: \<open>runs cfg s tr\<close> holds when the loop,
  started in state \<open>s\<close>, can return the transcript \<open>tr\<close>. The three rules are the exits of
  the loop on an empty heap and at the horizon, and one iteration. \<open>run_from\<close> is the
  transcript of the loop started in a state, as \<open>run_simulation\<close> computes it from the
  initial state.
\<close>

definition smallest :: "entry \<Rightarrow> entry list \<Rightarrow> bool" where
  "smallest e h = (e \<in> set h \<and> (\<forall>x \<in> set h. entry_key e \<le> entry_key x))"

inductive runs :: "SimulationConfig \<Rightarrow> sim_state \<Rightarrow> string list \<Rightarrow> bool" for cfg where
  exhausted: "heap s = [] \<Longrightarrow> runs cfg s (out s @ [end_line (length_cfg cfg)])"
| horizon: "smallest (t, n, ev) (heap s) \<Longrightarrow> length_cfg cfg \<le> t
     \<Longrightarrow> runs cfg s (out s @ [end_line (length_cfg cfg)])"
| dispatched: "smallest (t, n, ev) (heap s) \<Longrightarrow> t < length_cfg cfg
     \<Longrightarrow> runs cfg (dispatch cfg t ev (s\<lparr>heap := remove1 (t, n, ev) (heap s)\<rparr>)) tr
     \<Longrightarrow> runs cfg s tr"

definition run_from :: "SimulationConfig \<Rightarrow> sim_state \<Rightarrow> string list option" where
  "run_from cfg s = map_option (\<lambda>s'. out s' @ [end_line (length_cfg cfg)]) (loop cfg s)"

text \<open>
  The tag of a line that is neither blank nor a comment; the lines with a tag the parser
  does not know, and the \<^verbatim>\<open>LENGTH\<close> lines.
\<close>

definition tag_of :: "string \<Rightarrow> string option" where
  "tag_of raw =
     (case str_strip raw of
        [] \<Rightarrow> None
      | c # cs \<Rightarrow> if c = CHR ''#'' then None
                  else (case str_split (c # cs) of [] \<Rightarrow> None | tag # _ \<Rightarrow> Some tag))"

definition known_tags :: "string list" where
  "known_tags = [''LENGTH'', ''DEVICE'', ''PROPAGATE'', ''ALERT'', ''CANCEL'']"

definition unknown_tag_line :: "string \<Rightarrow> bool" where
  "unknown_tag_line raw = (case tag_of raw of None \<Rightarrow> False | Some tag \<Rightarrow> tag \<notin> set known_tags)"

definition length_line :: "string \<Rightarrow> bool" where
  "length_line raw = (tag_of raw = Some ''LENGTH'')"

section \<open>Measure and invariants\<close>

text \<open>
  The measure of the termination proof: an entry weighs its distance to the horizon and
  then the rank of its device, ordered lexicographically, and a state the multiset of the
  weights of its heap.
\<close>

definition weight :: "SimulationConfig \<Rightarrow> (int \<Rightarrow> nat) \<Rightarrow> entry \<Rightarrow> nat \<times> nat" where
  "weight cfg r e = (nat (length_cfg cfg - fst e), r (device (snd (snd e))))"

definition pending :: "SimulationConfig \<Rightarrow> (int \<Rightarrow> nat) \<Rightarrow> sim_state \<Rightarrow> (nat \<times> nat) multiset" where
  "pending cfg r s = mset (map (weight cfg r) (heap s))"

text \<open>
  Invariants of the loop. \<open>seq_inv\<close>: the sequence numbers in the heap are distinct and
  below the counter. \<open>later q t\<close>: the entry numbered \<open>q\<close> for time \<open>t\<close> has been popped,
  and every entry for time \<open>t\<close> that is or will be in the heap has a greater number.
  \<open>cancel_inv\<close>: a device that has sent a cancellation has a time stored that is no later
  than the line, no line of a cancellation sent is later than an entry of the heap, and
  the lines of one device for one description carry one time.
\<close>

definition seq_inv :: "sim_state \<Rightarrow> bool" where
  "seq_inv s = ((\<forall>e \<in> set (heap s). entry_seq e < seq s) \<and> distinct (map entry_seq (heap s)))"

definition later :: "nat \<Rightarrow> int \<Rightarrow> sim_state \<Rightarrow> bool" where
  "later q t s = (q < seq s \<and> (\<forall>e \<in> set (heap s). fst e = t \<longrightarrow> q < entry_seq e))"

definition cancel_inv :: "sim_state \<Rightarrow> bool" where
  "cancel_inv s =
     ((\<forall>t d m to. sent_cancel_line t d m to \<in> set (out s) \<longrightarrow>
         (\<exists>p. stored (cancel_time s) d m = Some p \<and> p \<le> t)
         \<and> (\<forall>e \<in> set (heap s). t \<le> fst e))
      \<and> (\<forall>t1 t2 d m to1 to2. sent_cancel_line t1 d m to1 \<in> set (out s) \<longrightarrow>
            sent_cancel_line t2 d m to2 \<in> set (out s) \<longrightarrow> t1 = t2))"

section \<open>Examples\<close>

text \<open>
  Device 1 sends to device 2 with delay 3, the horizon is 100; device 1 raises the alert
  \<^verbatim>\<open>fire\<close> at time 0 and cancels it at time 1. \<open>file_fire\<close> is an input file of it.
\<close>

definition cfg_fire :: SimulationConfig where
  "cfg_fire = \<lparr>length_cfg = 100, propagate = [1 \<mapsto> [(2, 3)]],
     initial_events =
       [\<lparr>time = 0, kind = RAISE_ALERT, device = 1, desc = ''fire'', src = None\<rparr>,
        \<lparr>time = 1, kind = RAISE_CANCEL, device = 1, desc = ''fire'', src = None\<rparr>]\<rparr>"

definition tr_fire :: "string list" where
  "tr_fire =
     [''@0: #1 SENT ALERT TO #2: fire'',
      ''@1: #1 SENT CANCELLATION TO #2: fire'',
      ''@3: #2 RECEIVED ALERT FROM #1: fire'',
      ''@4: #2 RECEIVED CANCELLATION FROM #1: fire'',
      ''@100: END'']"

definition file_fire :: "string list" where
  "file_fire = [''# one edge'', ''LENGTH 100'', ''DEVICE 1'', ''DEVICE 2'', '''',
     ''PROPAGATE 1 2 3'', ''  ALERT 1 fire 0'', ''CANCEL 1 fire 1'']"

text \<open>Device 1 sends to itself with delay 0, and raises one alert before the horizon.\<close>

definition cfg_cycle :: SimulationConfig where
  "cfg_cycle = \<lparr>length_cfg = 1, propagate = [1 \<mapsto> [(1, 0)]],
     initial_events = [\<lparr>time = 0, kind = RAISE_ALERT, device = 1, desc = ''x'', src = None\<rparr>]\<rparr>"

text \<open>The states of the run of \<open>cfg_cycle\<close>: one pending alert for device 1 at time 0.\<close>

definition cycling :: "sim_state \<Rightarrow> bool" where
  "cycling s = (\<exists>n ev. heap s = [(0, n, ev)] \<and> (kind ev = RAISE_ALERT \<or> kind ev = RECV_ALERT)
      \<and> device ev = 1 \<and> cancel_time s = Map.empty)"

text \<open>
  Device 1 sends to device 2 with delay 3 and to device 3 with delay 0, and cancels
  \<^verbatim>\<open>fire\<close> twice at time 1. \<open>rank_twice\<close> ranks device 1 above the others.
\<close>

definition ev_twice :: Event where
  "ev_twice = \<lparr>time = 1, kind = RAISE_CANCEL, device = 1, desc = ''fire'', src = None\<rparr>"

definition cfg_twice :: SimulationConfig where
  "cfg_twice = \<lparr>length_cfg = 100, propagate = [1 \<mapsto> [(2, 3), (3, 0)]],
     initial_events = [ev_twice, ev_twice]\<rparr>"

definition rank_twice :: "int \<Rightarrow> nat" where
  "rank_twice d = (if d = 1 then 1 else 0)"

definition tr_twice :: "string list" where
  "tr_twice =
     [''@1: #1 SENT CANCELLATION TO #2: fire'',
      ''@1: #1 SENT CANCELLATION TO #3: fire'',
      ''@1: #1 SENT CANCELLATION TO #2: fire'',
      ''@1: #1 SENT CANCELLATION TO #3: fire'',
      ''@1: #3 RECEIVED CANCELLATION FROM #1: fire'',
      ''@1: #3 RECEIVED CANCELLATION FROM #1: fire'',
      ''@4: #2 RECEIVED CANCELLATION FROM #1: fire'',
      ''@4: #2 RECEIVED CANCELLATION FROM #1: fire'',
      ''@100: END'']"

text \<open>
  Device 1 knows since time 5 that \<^verbatim>\<open>fire\<close> is cancelled: in \<open>st_c4\<close> nothing is pending,
  and \<open>ev_c4\<close> is an alert raised at time 5; in \<open>st_c5\<close> a cancellation at time 7 is pending.
\<close>

definition st_c4 :: sim_state where
  "st_c4 = \<lparr>heap = [], seq = 0, cancel_time = [1 \<mapsto> [''fire'' \<mapsto> 5]], out = []\<rparr>"

definition ev_c4 :: Event where
  "ev_c4 = \<lparr>time = 5, kind = RAISE_ALERT, device = 1, desc = ''fire'', src = None\<rparr>"

definition st_c5 :: sim_state where
  "st_c5 = \<lparr>heap = [(7, 0, \<lparr>time = 7, kind = RAISE_CANCEL, device = 1, desc = ''fire'', src = None\<rparr>)],
            seq = 1, cancel_time = [1 \<mapsto> [''fire'' \<mapsto> 5]], out = []\<rparr>"

text \<open>An input file with a line of unknown tag, and one with no \<^verbatim>\<open>LENGTH\<close> line.\<close>

definition file_bogus :: "string list" where
  "file_bogus = [''LENGTH 100'', ''DEVICE 1'', ''BOGUS 1'', ''ALERT 1 fire 0'']"

definition file_no_length :: "string list" where
  "file_no_length = [''DEVICE 1'', ''# LENGTH 100'', ''ALERT 1 fire 0'']"

section \<open>Rendering of integers and lines\<close>

lemma digit_char_in: "n < 10 \<Longrightarrow> digit_char n \<in> set ''0123456789''"
  unfolding digit_char_def by (rule nth_mem) simp

lemma digit_char_inj: "n < 10 \<Longrightarrow> m < 10 \<Longrightarrow> digit_char n = digit_char m \<Longrightarrow> n = m"
proof -
  assume a: "n < 10" "m < 10" "digit_char n = digit_char m"
  have d: "distinct ''0123456789''" by simp
  have l: "length ''0123456789'' = 10" by simp
  from a show "n = m" unfolding digit_char_def
    using nth_eq_iff_index_eq [OF d, of n m] l by simp
qed

lemma digits_chars: "set (digits n) \<subseteq> set ''0123456789''"
proof (induction n rule: digits.induct)
  case (1 n)
  show ?case
  proof (cases "n < 10")
    case True
    then show ?thesis using digit_char_in [of n] by (subst digits.simps) simp
  next
    case False
    then show ?thesis using 1 digit_char_in [of "n mod 10"] by (subst digits.simps) simp
  qed
qed

lemma digits_nonempty: "digits n \<noteq> []"
  by (subst digits.simps) simp

lemma digits_inj: "digits n = digits m \<Longrightarrow> n = m"
proof (induction n arbitrary: m rule: digits.induct)
  case (1 n)
  show ?case
  proof (cases "n < 10")
    case True
    note n = this
    show ?thesis
    proof (cases "m < 10")
      case True
      with n 1(2) show ?thesis
        by (subst (asm) digits.simps, subst (asm) (2) digits.simps) (simp add: digit_char_inj)
    next
      case False
      with n 1(2) digits_nonempty [of "m div 10"] show ?thesis
        by (subst (asm) digits.simps, subst (asm) (2) digits.simps) simp
    qed
  next
    case False
    note n = this
    show ?thesis
    proof (cases "m < 10")
      case True
      with n 1(2) digits_nonempty [of "n div 10"] show ?thesis
        by (subst (asm) digits.simps, subst (asm) (2) digits.simps) simp
    next
      case False
      with n 1(2) have "digits (n div 10) = digits (m div 10)" "digit_char (n mod 10) = digit_char (m mod 10)"
        by (subst (asm) digits.simps, subst (asm) (2) digits.simps, simp)+
      with 1(1) [OF n] have "n div 10 = m div 10" "n mod 10 = m mod 10"
        by (auto intro: digit_char_inj)
      then show ?thesis by (metis div_mult_mod_eq)
    qed
  qed
qed

lemma str_int_chars: "set (str_int i) \<subseteq> set ''-0123456789''"
proof (cases "i < 0")
  case True
  have "set (digits (nat (- i))) \<subseteq> set ''-0123456789''"
    using digits_chars [of "nat (- i)"] by (rule subset_trans) (simp add: subset_iff)
  with True show ?thesis by (simp add: str_int_def)
next
  case False
  have "set (digits (nat i)) \<subseteq> set ''-0123456789''"
    using digits_chars [of "nat i"] by (rule subset_trans) (simp add: subset_iff)
  with False show ?thesis by (simp add: str_int_def)
qed

lemma digits_no_minus: "digits n \<noteq> CHR ''-'' # r"
proof
  assume "digits n = CHR ''-'' # r"
  then have "CHR ''-'' \<in> set (digits n)" by simp
  with digits_chars [of n] show False by auto
qed

lemma str_int_inj: "str_int i = str_int j \<Longrightarrow> i = j"
proof -
  assume a: "str_int i = str_int j"
  show "i = j"
  proof (cases "i < 0")
    case True
    note i = this
    show ?thesis
    proof (cases "j < 0")
      case True
      with i a have "digits (nat (- i)) = digits (nat (- j))" by (simp add: str_int_def)
      then have "nat (- i) = nat (- j)" by (rule digits_inj)
      with i True show ?thesis by simp
    next
      case False
      with i a digits_no_minus [of "nat j"] show ?thesis by (simp add: str_int_def) metis
    qed
  next
    case False
    note i = this
    show ?thesis
    proof (cases "j < 0")
      case True
      with i a digits_no_minus [of "nat i"] show ?thesis by (simp add: str_int_def)
    next
      case False
      with i a have "digits (nat i) = digits (nat j)" by (simp add: str_int_def)
      then have "nat i = nat j" by (rule digits_inj)
      with i False show ?thesis by simp
    qed
  qed
qed

lemma split_at:
  "c \<notin> set a \<Longrightarrow> c \<notin> set b \<Longrightarrow> a @ c # r1 = b @ c # r2 \<Longrightarrow> a = b \<and> r1 = r2"
proof (induction a arbitrary: b)
  case Nil then show ?case by (cases b) auto
next
  case (Cons x a) then show ?case by (cases b) auto
qed

lemma colon_notin_str_int: "CHR '':'' \<notin> set (str_int i)"
  using str_int_chars [of i] by auto

lemma space_notin_str_int: "CHR '' '' \<notin> set (str_int i)"
  using str_int_chars [of i] by auto

lemma stamp_eq: "stamp t @ r = stamp t' @ r' \<Longrightarrow> t = t' \<and> r = r'"
proof -
  assume "stamp t @ r = stamp t' @ r'"
  then have "str_int t @ CHR '':'' # (CHR '' '' # r) = str_int t' @ CHR '':'' # (CHR '' '' # r')"
    by (simp add: stamp_def)
  from split_at [OF colon_notin_str_int colon_notin_str_int this]
  show ?thesis by (auto dest: str_int_inj)
qed

lemma stamped_unique: "stamped t l \<Longrightarrow> stamped t' l \<Longrightarrow> t = t'"
  unfolding stamped_def prefix_def using stamp_eq by metis

lemma stamped_lines [simp]:
  "stamped t (sent_alert_line t dev dsc to)"
  "stamped t (sent_cancel_line t dev dsc to)"
  "stamped t (recv_alert_line t dev sr dsc)"
  "stamped t (recv_cancel_line t dev sr dsc)"
  "stamped t (end_line t)"
  by (simp_all add: stamped_def sent_alert_line_def sent_cancel_line_def recv_alert_line_def
      recv_cancel_line_def end_line_def)

lemma end_line_neq [simp]:
  "sent_alert_line t dev dsc to \<noteq> end_line h"
  "sent_cancel_line t dev dsc to \<noteq> end_line h"
  "recv_alert_line t dev sr dsc \<noteq> end_line h"
  "recv_cancel_line t dev sr dsc \<noteq> end_line h"
  unfolding sent_alert_line_def sent_cancel_line_def recv_alert_line_def
      recv_cancel_line_def end_line_def
  by (auto dest!: stamp_eq)

lemmas end_line_neq_sym [simp] = end_line_neq [THEN not_sym]

lemma body_eq:
  "CHR ''#'' # str_int d @ CHR '' '' # r = CHR ''#'' # str_int d' @ CHR '' '' # r' \<Longrightarrow> d = d' \<and> r = r'"
proof -
  assume "CHR ''#'' # str_int d @ CHR '' '' # r = CHR ''#'' # str_int d' @ CHR '' '' # r'"
  then have "str_int d @ CHR '' '' # r = str_int d' @ CHR '' '' # r'" by simp
  from split_at [OF space_notin_str_int space_notin_str_int this]
  show ?thesis by (auto dest: str_int_inj)
qed

lemma tail_eq:
  "str_int a @ CHR '':'' # r = str_int a' @ CHR '':'' # r' \<Longrightarrow> a = a' \<and> r = r'"
proof -
  assume "str_int a @ CHR '':'' # r = str_int a' @ CHR '':'' # r'"
  from split_at [OF colon_notin_str_int colon_notin_str_int this]
  show ?thesis by (auto dest: str_int_inj)
qed

lemma sent_cancel_line_eq [simp]:
  "sent_cancel_line t dev dsc to = sent_cancel_line t' dev' dsc' to'
     \<longleftrightarrow> t = t' \<and> dev = dev' \<and> dsc = dsc' \<and> to = to'"
proof
  assume "sent_cancel_line t dev dsc to = sent_cancel_line t' dev' dsc' to'"
  then have 1: "t = t'" and "CHR ''#'' # str_int dev @ CHR '' '' # (''SENT CANCELLATION TO #'' @ str_int to @ '': '' @ dsc)
     = CHR ''#'' # str_int dev' @ CHR '' '' # (''SENT CANCELLATION TO #'' @ str_int to' @ '': '' @ dsc')"
    unfolding sent_cancel_line_def by (auto dest!: stamp_eq)
  from body_eq [OF this(2)] have 2: "dev = dev'" and "str_int to @ CHR '':'' # (CHR '' '' # dsc) = str_int to' @ CHR '':'' # (CHR '' '' # dsc')"
    by auto
  from tail_eq [OF this(2)] 1 2 show "t = t' \<and> dev = dev' \<and> dsc = dsc' \<and> to = to'" by simp
qed simp

lemma sent_cancel_line_neq [simp]:
  "sent_alert_line t' dev' dsc' to' \<noteq> sent_cancel_line t dev dsc to"
  "recv_alert_line t' dev' sr dsc' \<noteq> sent_cancel_line t dev dsc to"
  "recv_cancel_line t' dev' sr dsc' \<noteq> sent_cancel_line t dev dsc to"
proof -
  show "sent_alert_line t' dev' dsc' to' \<noteq> sent_cancel_line t dev dsc to"
  proof
    assume "sent_alert_line t' dev' dsc' to' = sent_cancel_line t dev dsc to"
    then have "CHR ''#'' # str_int dev' @ CHR '' '' # (''SENT ALERT TO #'' @ str_int to' @ '': '' @ dsc')
      = CHR ''#'' # str_int dev @ CHR '' '' # (''SENT CANCELLATION TO #'' @ str_int to @ '': '' @ dsc)"
      unfolding sent_cancel_line_def sent_alert_line_def by (auto dest!: stamp_eq)
    from body_eq [OF this] show False by simp
  qed
  show "recv_alert_line t' dev' sr dsc' \<noteq> sent_cancel_line t dev dsc to"
  proof
    assume "recv_alert_line t' dev' sr dsc' = sent_cancel_line t dev dsc to"
    then have "CHR ''#'' # str_int dev' @ CHR '' '' # (''RECEIVED ALERT FROM #'' @ str_opt sr @ '': '' @ dsc')
      = CHR ''#'' # str_int dev @ CHR '' '' # (''SENT CANCELLATION TO #'' @ str_int to @ '': '' @ dsc)"
      unfolding sent_cancel_line_def recv_alert_line_def by (auto dest!: stamp_eq)
    from body_eq [OF this] show False by simp
  qed
  show "recv_cancel_line t' dev' sr dsc' \<noteq> sent_cancel_line t dev dsc to"
  proof
    assume "recv_cancel_line t' dev' sr dsc' = sent_cancel_line t dev dsc to"
    then have "CHR ''#'' # str_int dev' @ CHR '' '' # (''RECEIVED CANCELLATION FROM #'' @ str_opt sr @ '': '' @ dsc')
      = CHR ''#'' # str_int dev @ CHR '' '' # (''SENT CANCELLATION TO #'' @ str_int to @ '': '' @ dsc)"
      unfolding sent_cancel_line_def recv_cancel_line_def by (auto dest!: stamp_eq)
    from body_eq [OF this] show False by simp
  qed
qed

section \<open>The effect of one iteration\<close>

lemma loop_stop: "step cfg s = None \<Longrightarrow> loop cfg s = Some s"
  by (subst loop.simps) simp

lemma loop_continue: "step cfg s = Some s' \<Longrightarrow> loop cfg s = loop cfg s'"
  by (subst loop.simps) simp

lemma stored_record_cancel:
  "stored (record_cancel ct dev dsc t) dev' dsc' =
     (if dev' = dev \<and> dsc' = dsc
      then Some (case stored ct dev dsc of None \<Rightarrow> t | Some prev \<Rightarrow> min prev t)
      else stored ct dev' dsc')"
  by (auto simp: stored_def record_cancel_def Let_def min_def split: option.splits)

lemma cancelled_before_stored:
  "cancelled_before ct dev dsc t = (case stored ct dev dsc of None \<Rightarrow> False | Some prev \<Rightarrow> prev < t)"
  by (simp add: cancelled_before_def stored_def split: option.splits)

lemma send_all_out: "out (send_all line k t ev es s) = out s @ map (\<lambda>(to, delay). line to) es"
  by (induction es arbitrary: s) auto

lemma send_all_cancel_time: "cancel_time (send_all line k t ev es s) = cancel_time s"
  by (induction es arbitrary: s) auto

lemma send_all_seq: "seq (send_all line k t ev es s) = seq s + length es"
  by (induction es arbitrary: s) auto

lemma send_all_heap: "heap (send_all line k t ev es s) = heap s @ pushed k t ev (seq s) es"
  by (induction es arbitrary: s) (auto simp: heappush_def)

lemma dispatch_out:
  "out (dispatch cfg t ev s) =
     out s @ received_lines t ev @ (if forwards s t ev then sent_lines cfg t ev else [])"
  by (cases "kind ev")
     (auto simp: dispatch_def forwards_def received_lines_def sent_lines_def Let_def
        send_alerts_def send_cancels_def send_all_out cancelled_before_stored
        stored_record_cancel split: option.splits)

lemma dispatch_heap:
  "heap (dispatch cfg t ev s) =
     heap s @ (if forwards s t ev
               then pushed (pushed_kind (kind ev)) t ev (seq s) (edges cfg (device ev)) else [])"
  by (cases "kind ev")
     (auto simp: dispatch_def forwards_def pushed_kind_def Let_def
        send_alerts_def send_cancels_def send_all_heap cancelled_before_stored
        stored_record_cancel split: option.splits)

lemma dispatch_seq:
  "seq (dispatch cfg t ev s) =
     seq s + (if forwards s t ev then length (edges cfg (device ev)) else 0)"
  by (cases "kind ev")
     (auto simp: dispatch_def forwards_def Let_def
        send_alerts_def send_cancels_def send_all_seq cancelled_before_stored
        stored_record_cancel split: option.splits)

lemma dispatch_cancel_time:
  "cancel_time (dispatch cfg t ev s) =
     (if kind ev = RAISE_CANCEL \<or> kind ev = RECV_CANCEL
      then record_cancel (cancel_time s) (device ev) (desc ev) t else cancel_time s)"
  by (cases "kind ev")
     (auto simp: dispatch_def Let_def send_alerts_def send_cancels_def send_all_cancel_time)

lemma arg_min_list_least:
  "e \<in> set xs \<Longrightarrow> f (arg_min_list f xs) \<le> f e"
proof -
  assume e: "e \<in> set xs"
  then have ne: "xs \<noteq> []" by auto
  show ?thesis using f_arg_min_list_f [OF ne, of f] e by simp
qed

lemma step_SomeE:
  assumes "step cfg s = Some s'"
  obtains t n ev where
    "(t, n, ev) \<in> set (heap s)"
    "\<forall>e \<in> set (heap s). entry_key (t, n, ev) \<le> entry_key e"
    "t < length_cfg cfg"
    "s' = dispatch cfg t ev (s\<lparr>heap := remove1 (t, n, ev) (heap s)\<rparr>)"
proof -
  from assms have ne: "heap s \<noteq> []" by (auto simp: step_def split: if_splits)
  obtain t n ev where m: "arg_min_list entry_key (heap s) = (t, n, ev)"
    by (cases "arg_min_list entry_key (heap s)") auto
  have 1: "(t, n, ev) \<in> set (heap s)" using arg_min_list_in [OF ne, of entry_key] m by simp
  have 2: "\<forall>e \<in> set (heap s). entry_key (t, n, ev) \<le> entry_key e"
    using arg_min_list_least [of _ "heap s" entry_key] m by simp
  from assms ne m have 3: "t < length_cfg cfg"
    and 4: "s' = dispatch cfg t ev (s\<lparr>heap := remove1 (t, n, ev) (heap s)\<rparr>)"
    by (auto simp: step_def heappop_def Let_def split: if_splits)
  from 1 2 3 4 show ?thesis by (rule that)
qed

lemma loop_invariant:
  assumes run: "loop cfg s = Some s'"
    and init: "I s"
    and pres: "\<And>a b. I a \<Longrightarrow> step cfg a = Some b \<Longrightarrow> I b"
  shows "I s' \<and> step cfg s' = None"
proof -
  have "cfg = cfg \<longrightarrow> I s \<longrightarrow> I s' \<and> step cfg s' = None"
  proof (rule loop.raw_induct
      [where P = "\<lambda>c a y. c = cfg \<longrightarrow> I a \<longrightarrow> I y \<and> step cfg y = None", OF _ run])
    fix f c a y
    assume ih: "\<And>c a y. f c a = Some y \<Longrightarrow> c = cfg \<longrightarrow> I a \<longrightarrow> I y \<and> step cfg y = None"
      and eq: "(case step c a of None \<Rightarrow> Some a | Some b \<Rightarrow> f c b) = Some y"
    show "c = cfg \<longrightarrow> I a \<longrightarrow> I y \<and> step cfg y = None"
    proof (intro impI)
      assume c: "c = cfg" and a: "I a"
      show "I y \<and> step cfg y = None"
      proof (cases "step cfg a")
        case None
        with eq c a show ?thesis by simp
      next
        case (Some b)
        with eq c have "f cfg b = Some y" by simp
        from ih [OF this] pres [OF a Some] show ?thesis by simp
      qed
    qed
  qed
  with init show ?thesis by simp
qed

section \<open>Termination\<close>

lemma delays_pos_ranked: "delays_pos cfg \<Longrightarrow> delays_ranked cfg r"
  unfolding delays_pos_def delays_ranked_def by fastforce

lemma delays_ranked_nonneg: "delays_ranked cfg r \<Longrightarrow> delays_nonneg cfg"
  unfolding delays_ranked_def delays_nonneg_def by fastforce

lemma edges_ranked:
  "delays_ranked cfg r \<Longrightarrow> (to, delay) \<in> set (edges cfg dev)
     \<Longrightarrow> 0 < delay \<or> (delay = 0 \<and> r to < r dev)"
  unfolding delays_ranked_def edges_def by (cases "propagate cfg dev") fastforce+

lemma edges_nonneg: "delays_nonneg cfg \<Longrightarrow> (to, delay) \<in> set (edges cfg dev) \<Longrightarrow> 0 \<le> delay"
  unfolding delays_nonneg_def edges_def by (cases "propagate cfg dev") fastforce+

lemma pushed_times:
  "e \<in> set (pushed k t ev n es) \<Longrightarrow> \<exists>to delay. (to, delay) \<in> set es \<and> fst e = t + delay"
  by (induction k t ev n es rule: pushed.induct) auto

lemma pushed_seqs:
  "e \<in> set (pushed k t ev n es) \<Longrightarrow> n \<le> fst (snd e) \<and> fst (snd e) < n + length es"
  by (induction k t ev n es rule: pushed.induct) auto

lemma pushed_edges:
  "e \<in> set (pushed k t ev n es) \<Longrightarrow>
     \<exists>to delay. (to, delay) \<in> set es \<and> fst e = t + delay \<and> device (snd (snd e)) = to"
  by (induction k t ev n es rule: pushed.induct) auto

lemma step_pending:
  assumes rk: "delays_ranked cfg r" and st: "step cfg s = Some s'"
  shows "pending cfg r s' < pending cfg r s"
proof -
  from st obtain t n ev where
    m: "(t, n, ev) \<in> set (heap s)" and t: "t < length_cfg cfg"
    and s': "s' = dispatch cfg t ev (s\<lparr>heap := remove1 (t, n, ev) (heap s)\<rparr>)"
    by (rule step_SomeE)
  define rest where "rest = remove1 (t, n, ev) (heap s)"
  define new where "new = (if forwards (s\<lparr>heap := rest\<rparr>) t ev
               then pushed (pushed_kind (kind ev)) t ev (seq s) (edges cfg (device ev)) else [])"
  have h': "heap s' = rest @ new"
    unfolding s' new_def rest_def by (simp add: dispatch_heap)
  have "mset (heap s) = add_mset (t, n, ev) (mset rest)"
    using m by (simp add: rest_def)
  then have old: "pending cfg r s = mset (map (weight cfg r) rest) + {#weight cfg r (t, n, ev)#}"
    by (simp add: pending_def)
  have new: "pending cfg r s' = mset (map (weight cfg r) rest) + mset (map (weight cfg r) new)"
    by (simp add: pending_def h')
  have small: "\<forall>k \<in># mset (map (weight cfg r) new). \<exists>j \<in># {#weight cfg r (t, n, ev)#}. k < j"
  proof
    fix k assume "k \<in># mset (map (weight cfg r) new)"
    then obtain e where e: "e \<in> set new" and k: "k = weight cfg r e" by auto
    from e obtain to delay where ed: "(to, delay) \<in> set (edges cfg (device ev))"
      and fe: "fst e = t + delay" and de: "device (snd (snd e)) = to"
      by (auto simp: new_def dest: pushed_edges split: if_splits)
    from edges_ranked [OF rk ed] have "weight cfg r e < weight cfg r (t, n, ev)"
    proof
      assume "0 < delay"
      with t fe show ?thesis by (simp add: weight_def)
    next
      assume "delay = 0 \<and> r to < r (device ev)"
      with fe de show ?thesis by (simp add: weight_def)
    qed
    with k show "\<exists>j \<in># {#weight cfg r (t, n, ev)#}. k < j" by simp
  qed
  have "multp (<) (mset (map (weight cfg r) rest) + mset (map (weight cfg r) new))
          (mset (map (weight cfg r) rest) + {#weight cfg r (t, n, ev)#})"
    by (rule one_step_implies_multp) (use small in auto)
  then show ?thesis unfolding old new less_multiset_def .
qed

lemma loop_terminates:
  assumes rk: "delays_ranked cfg r"
  shows "\<exists>s'. loop cfg s = Some s'"
proof (induction "pending cfg r s" arbitrary: s rule: less_induct)
  case less
  show ?case
  proof (cases "step cfg s")
    case None
    then show ?thesis by (simp add: loop_stop)
  next
    case (Some s1)
    from less [OF step_pending [OF rk Some]] show ?thesis
      by (simp add: loop_continue [OF Some])
  qed
qed

section \<open>The transcript\<close>

lemma loop_diverges:
  assumes init: "I s"
    and pres: "\<And>a. I a \<Longrightarrow> \<exists>b. step cfg a = Some b \<and> I b"
  shows "loop cfg s = None"
proof (rule ccontr)
  assume "loop cfg s \<noteq> None"
  then obtain y where run: "loop cfg s = Some y" by auto
  have "I y \<and> step cfg y = None"
    using run init
  proof (rule loop_invariant)
    fix a b assume "I a" "step cfg a = Some b"
    with pres [of a] show "I b" by auto
  qed
  with pres [of y] show False by auto
qed

lemma received_lines_not_end: "end_line h \<notin> set (received_lines t ev)"
  by (cases "kind ev") (auto simp: received_lines_def)

lemma sent_lines_not_end: "end_line h \<notin> set (sent_lines cfg t ev)"
  by (auto simp: sent_lines_def split: if_splits)

lemma step_out:
  assumes "step cfg s = Some s'"
  obtains t n ev where "(t, n, ev) \<in> set (heap s)" "t < length_cfg cfg"
    "out s' = out s @ received_lines t ev @
       (if forwards s t ev then sent_lines cfg t ev else [])"
proof -
  from assms obtain t n ev where
    m: "(t, n, ev) \<in> set (heap s)" and t: "t < length_cfg cfg"
    and s': "s' = dispatch cfg t ev (s\<lparr>heap := remove1 (t, n, ev) (heap s)\<rparr>)"
    by (rule step_SomeE)
  have "out s' = out s @ received_lines t ev @ (if forwards s t ev then sent_lines cfg t ev else [])"
    unfolding s' by (simp add: dispatch_out forwards_def)
  with m t show ?thesis by (rule that)
qed

lemma step_no_end:
  assumes "end_line h \<notin> set (out s)" "step cfg s = Some s'"
  shows "end_line h \<notin> set (out s')"
proof -
  from assms(2) obtain t n ev where
    "out s' = out s @ received_lines t ev @ (if forwards s t ev then sent_lines cfg t ev else [])"
    by (rule step_out)
  with assms(1) show ?thesis
    by (simp add: received_lines_not_end sent_lines_not_end)
qed

lemma push_initial_out: "out (push_initial evs s) = out s"
  by (induction evs arbitrary: s) auto

lemma push_initial_cancel_time: "cancel_time (push_initial evs s) = cancel_time s"
  by (induction evs arbitrary: s) auto

lemma init_out: "out (init_state cfg) = []"
  by (simp add: init_state_def push_initial_out)

lemma init_cancel_time: "cancel_time (init_state cfg) = Map.empty"
  by (simp add: init_state_def push_initial_cancel_time)

lemma run_fire: "run_simulation cfg_fire = Some tr_fire"
  by code_simp

lemma delays_ranked_twice: "delays_ranked cfg_twice rank_twice"
  by (simp add: delays_ranked_def cfg_twice_def rank_twice_def)

lemma step_None: "step cfg s = None \<Longrightarrow> heap s = [] \<or> length_cfg cfg \<le> fst (popped s)"
  by (cases "arg_min_list entry_key (heap s)")
     (auto simp: step_def popped_def heappop_def Let_def split: if_splits)

text \<open>
  Claim C1, as the code has it: when the propagation delays are non-negative and no cycle
  consists of edges of delay 0 (the devices have a rank as in \<open>delays_ranked\<close>), the loop
  of \<^verbatim>\<open>_run_simulation\<close> terminates, whatever the horizon, on an empty heap or on popping
  an event whose time is not below the horizon, and the transcript returned ends with the
  \<^verbatim>\<open>END\<close> line of the horizon, which occurs nowhere before.
\<close>

theorem C1_no_zero_delay_cycle_terminates:
  assumes "delays_ranked cfg r"
  shows "\<exists>s'. loop cfg (init_state cfg) = Some s'
           \<and> (heap s' = [] \<or> length_cfg cfg \<le> fst (popped s'))
           \<and> run_simulation cfg = Some (out s' @ [end_line (length_cfg cfg)])
           \<and> end_line (length_cfg cfg) \<notin> set (out s')"
proof -
  from loop_terminates [OF assms] obtain s' where run: "loop cfg (init_state cfg) = Some s'"
    by blast
  have "end_line (length_cfg cfg) \<notin> set (out s') \<and> step cfg s' = None"
    using run
  proof (rule loop_invariant)
    show "end_line (length_cfg cfg) \<notin> set (out (init_state cfg))" by (simp add: init_out)
  qed (rule step_no_end)
  with run step_None [of cfg s'] show ?thesis by (simp add: run_simulation_def)
qed

text \<open>
  The theorem applies to \<open>cfg_twice\<close>, which has an edge of delay 0 from device 1 to
  device 3 and no cycle.
\<close>

theorem C1_witness:
  "delays_ranked cfg_twice rank_twice \<and>
   (\<exists>s'. loop cfg_twice (init_state cfg_twice) = Some s'
      \<and> (heap s' = [] \<or> length_cfg cfg_twice \<le> fst (popped s'))
      \<and> run_simulation cfg_twice = Some (out s' @ [end_line (length_cfg cfg_twice)])
      \<and> end_line (length_cfg cfg_twice) \<notin> set (out s'))"
  using C1_no_zero_delay_cycle_terminates [OF delays_ranked_twice] delays_ranked_twice by simp

text \<open>The configuration \<open>cfg_cycle\<close> has a cycle of delay 0, and so no rank.\<close>

lemma cycle_not_ranked: "\<not> delays_ranked cfg_cycle r"
  by (simp add: delays_ranked_def cfg_cycle_def)

lemma cycling_step: "cycling a \<Longrightarrow> \<exists>b. step cfg_cycle a = Some b \<and> cycling b"
  unfolding cycling_def
  by (auto simp: step_def heappop_def cfg_cycle_def dispatch_def cancelled_before_def
      send_alerts_def edges_def heappush_def Let_def)

text \<open>
  With a cycle of delay 0 the loop need not terminate: on \<open>cfg_cycle\<close>, whose horizon and
  only delay are non-negative, every iteration pops the one pending alert at time 0 and
  pushes another one at time 0, so no transcript is returned.
\<close>

theorem C1_zero_delay_cycle_diverges:
  "0 \<le> length_cfg cfg_cycle \<and> delays_nonneg cfg_cycle \<and> run_simulation cfg_cycle = None"
proof -
  have "cycling (init_state cfg_cycle)"
    by (simp add: cycling_def init_state_def cfg_cycle_def heappush_def)
  then have "loop cfg_cycle (init_state cfg_cycle) = None"
    by (rule loop_diverges) (rule cycling_step)
  then show ?thesis
    by (simp add: run_simulation_def) (simp add: cfg_cycle_def delays_nonneg_def)
qed

lemma stamped_received: "l \<in> set (received_lines t ev) \<Longrightarrow> stamped t l"
  by (cases "kind ev") (auto simp: received_lines_def)

lemma stamped_sent: "l \<in> set (sent_lines cfg t ev) \<Longrightarrow> stamped t l"
  by (auto simp: sent_lines_def split: if_splits)

lemma step_stamped:
  assumes inv: "\<forall>l \<in> set (out s). \<exists>t. stamped t l \<and> t < length_cfg cfg"
    and st: "step cfg s = Some s'"
  shows "\<forall>l \<in> set (out s'). \<exists>t. stamped t l \<and> t < length_cfg cfg"
proof -
  from st obtain t n ev where t: "t < length_cfg cfg" and
    o: "out s' = out s @ received_lines t ev @ (if forwards s t ev then sent_lines cfg t ev else [])"
    by (rule step_out)
  show ?thesis
  proof
    fix l assume "l \<in> set (out s')"
    with o have "l \<in> set (out s) \<or> l \<in> set (received_lines t ev) \<or> l \<in> set (sent_lines cfg t ev)"
      by (auto split: if_splits)
    with inv t show "\<exists>t. stamped t l \<and> t < length_cfg cfg"
      by (auto dest: stamped_received stamped_sent)
  qed
qed

text \<open>
  Claim C2: in every transcript \<^verbatim>\<open>_run_simulation\<close> returns, each line before the
  last carries a timestamp below the horizon, and the last line is the \<^verbatim>\<open>END\<close> line,
  which carries the horizon.
\<close>

theorem C2_horizon_exclusive:
  assumes "run_simulation cfg = Some tr"
  shows "tr \<noteq> [] \<and> (\<forall>l \<in> set (butlast tr). \<exists>t. stamped t l \<and> t < length_cfg cfg)
         \<and> last tr = end_line (length_cfg cfg) \<and> stamped (length_cfg cfg) (last tr)"
proof -
  from assms obtain s' where run: "loop cfg (init_state cfg) = Some s'"
    and tr: "tr = out s' @ [end_line (length_cfg cfg)]"
    by (auto simp: run_simulation_def split: option.splits)
  have "(\<forall>l \<in> set (out s'). \<exists>t. stamped t l \<and> t < length_cfg cfg) \<and> step cfg s' = None"
    using run
  proof (rule loop_invariant)
    show "\<forall>l \<in> set (out (init_state cfg)). \<exists>t. stamped t l \<and> t < length_cfg cfg"
      by (simp add: init_out)
  qed (rule step_stamped)
  with tr show ?thesis by simp
qed


theorem C2_witness:
  "run_simulation cfg_fire = Some tr_fire
   \<and> (\<exists>t. stamped t ''@3: #2 RECEIVED ALERT FROM #1: fire'' \<and> t < 100)
   \<and> last tr_fire = end_line 100"
proof -
  have h: "length_cfg cfg_fire = 100" by (simp add: cfg_fire_def)
  have m: "''@3: #2 RECEIVED ALERT FROM #1: fire'' \<in> set (butlast tr_fire)"
    by (simp add: tr_fire_def)
  from C2_horizon_exclusive [OF run_fire]
  have "\<forall>l \<in> set (butlast tr_fire). \<exists>t. stamped t l \<and> t < 100"
    and "last tr_fire = end_line 100"
    unfolding h by blast+
  with m run_fire show ?thesis by blast
qed

text \<open>
  Claim C7: the run of the scenario with one edge from device 1 to device 2 of delay 3,
  horizon 100, an alert \<^verbatim>\<open>fire\<close> raised by device 1 at time 0 and cancelled at time 1.
\<close>

theorem C7_fire_scenario:
  "run_simulation
     \<lparr>length_cfg = 100, propagate = [1 \<mapsto> [(2, 3)]],
      initial_events =
        [\<lparr>time = 0, kind = RAISE_ALERT, device = 1, desc = ''fire'', src = None\<rparr>,
         \<lparr>time = 1, kind = RAISE_CANCEL, device = 1, desc = ''fire'', src = None\<rparr>]\<rparr>
   = Some [''@0: #1 SENT ALERT TO #2: fire'',
           ''@1: #1 SENT CANCELLATION TO #2: fire'',
           ''@3: #2 RECEIVED ALERT FROM #1: fire'',
           ''@4: #2 RECEIVED CANCELLATION FROM #1: fire'',
           ''@100: END'']"
  by code_simp

section \<open>The ledger\<close>

text \<open>
  Claim C4: \<^verbatim>\<open>cancelled_before\<close> holds exactly when a time is stored for the device and
  the description and that time is strictly less than \<open>t\<close>. Hence an alert event
  dispatched at time \<open>t\<close>, for a device and a description whose stored time is exactly
  \<open>t\<close>, is forwarded: after the line of its receipt, if it is a received alert, one
  \<^verbatim>\<open>SENT ALERT\<close> line is appended and one \<^verbatim>\<open>RECV_ALERT\<close> event pushed per outgoing edge.
\<close>

theorem C4_cancelled_before_strict:
  "(cancelled_before ct dev dsc t \<longleftrightarrow> (\<exists>d prev. ct dev = Some d \<and> d dsc = Some prev \<and> prev < t))
   \<and> ((kind ev = RAISE_ALERT \<or> kind ev = RECV_ALERT) \<longrightarrow>
        stored (cancel_time s) (device ev) (desc ev) = Some t \<longrightarrow>
          out (dispatch cfg t ev s) =
            out s @ received_lines t ev @
              map (\<lambda>(to, delay). sent_alert_line t (device ev) (desc ev) to) (edges cfg (device ev))
          \<and> heap (dispatch cfg t ev s) =
            heap s @ pushed RECV_ALERT t ev (seq s) (edges cfg (device ev)))"
proof (intro conjI impI)
  show "cancelled_before ct dev dsc t \<longleftrightarrow> (\<exists>d prev. ct dev = Some d \<and> d dsc = Some prev \<and> prev < t)"
    by (cases "ct dev") (auto simp: cancelled_before_def split: option.splits)
next
  assume k: "kind ev = RAISE_ALERT \<or> kind ev = RECV_ALERT"
    and st: "stored (cancel_time s) (device ev) (desc ev) = Some t"
  from st have f: "forwards s t ev" by (simp add: forwards_def cancelled_before_stored)
  from k have sl: "sent_lines cfg t ev =
      map (\<lambda>(to, delay). sent_alert_line t (device ev) (desc ev) to) (edges cfg (device ev))"
    by (simp add: sent_lines_def)
  from k have pk: "pushed_kind (kind ev) = RECV_ALERT" by (auto simp: pushed_kind_def)
  show "out (dispatch cfg t ev s) =
            out s @ received_lines t ev @
              map (\<lambda>(to, delay). sent_alert_line t (device ev) (desc ev) to) (edges cfg (device ev))"
    using f sl by (simp add: dispatch_out)
  show "heap (dispatch cfg t ev s) =
            heap s @ pushed RECV_ALERT t ev (seq s) (edges cfg (device ev))"
    using f pk by (simp add: dispatch_heap)
qed

theorem C4_witness:
  "cancelled_before [1 \<mapsto> [''fire'' \<mapsto> 5]] 1 ''fire'' 6
   \<and> \<not> cancelled_before [1 \<mapsto> [''fire'' \<mapsto> 5]] 1 ''fire'' 5
   \<and> kind ev_c4 = RAISE_ALERT
   \<and> stored (cancel_time st_c4) (device ev_c4) (desc ev_c4) = Some 5
   \<and> out (dispatch cfg_fire 5 ev_c4 st_c4) = [''@5: #1 SENT ALERT TO #2: fire'']"
proof -
  have k: "kind ev_c4 = RAISE_ALERT \<or> kind ev_c4 = RECV_ALERT" by (simp add: ev_c4_def)
  have st: "stored (cancel_time st_c4) (device ev_c4) (desc ev_c4) = Some 5"
    by (simp add: st_c4_def ev_c4_def stored_def)
  have a: "cancelled_before [1 \<mapsto> [''fire'' \<mapsto> 5]] 1 ''fire'' 6"
    using C4_cancelled_before_strict [where ct = "[1 \<mapsto> [''fire'' \<mapsto> 5]]" and dev = 1
        and dsc = "''fire''" and t = 6] by simp
  have b: "\<not> cancelled_before [1 \<mapsto> [''fire'' \<mapsto> 5]] 1 ''fire'' 5"
    using C4_cancelled_before_strict [where ct = "[1 \<mapsto> [''fire'' \<mapsto> 5]]" and dev = 1
        and dsc = "''fire''" and t = 5] by simp
  from C4_cancelled_before_strict [where ev = ev_c4 and s = st_c4 and t = 5 and cfg = cfg_fire] k st
  have "out (dispatch cfg_fire 5 ev_c4 st_c4) =
      out st_c4 @ received_lines 5 ev_c4 @
        map (\<lambda>(to, delay). sent_alert_line 5 (device ev_c4) (desc ev_c4) to) (edges cfg_fire (device ev_c4))"
    by blast
  also have "\<dots> = [''@5: #1 SENT ALERT TO #2: fire'']"
    by code_simp
  finally show ?thesis using a b st by (simp add: ev_c4_def)
qed

text \<open>Across iterations a stored time stays stored and does not increase.\<close>

lemma steps_stored_mono:
  "steps cfg n s = Some s' \<Longrightarrow> stored (cancel_time s) d m = Some p
     \<Longrightarrow> \<exists>p'. stored (cancel_time s') d m = Some p' \<and> p' \<le> p"
proof (induction n arbitrary: s p)
  case 0
  then show ?case by simp
next
  case (Suc n)
  from Suc.prems(1) obtain s1 where st: "step cfg s = Some s1" and rest: "steps cfg n s1 = Some s'"
    by (auto split: option.splits)
  from st obtain t k ev where s1: "s1 = dispatch cfg t ev (s\<lparr>heap := remove1 (t, k, ev) (heap s)\<rparr>)"
    by (rule step_SomeE)
  have "\<exists>p1. stored (cancel_time s1) d m = Some p1 \<and> p1 \<le> p"
    unfolding s1 using Suc.prems(2)
    by (auto simp: dispatch_cancel_time stored_record_cancel)
  then obtain p1 where p1: "stored (cancel_time s1) d m = Some p1" "p1 \<le> p" by blast
  from Suc.IH [OF rest p1(1)] p1(2) show ?case by force
qed

text \<open>
  Claim C5: \<^verbatim>\<open>record_cancel\<close> stores, for the device and the description, the minimum of
  the time stored before and \<open>t\<close>, or \<open>t\<close> when none was stored, and leaves every other
  pair as it was; hence, over any number of iterations of the loop, the time stored for
  a pair never increases.
\<close>

theorem C5_record_cancel_min:
  "stored (record_cancel ct dev dsc t) dev dsc =
       Some (case stored ct dev dsc of None \<Rightarrow> t | Some prev \<Rightarrow> min prev t)
   \<and> ((dev', dsc') \<noteq> (dev, dsc) \<longrightarrow>
        stored (record_cancel ct dev dsc t) dev' dsc' = stored ct dev' dsc')
   \<and> (steps cfg n s = Some s' \<longrightarrow> stored (cancel_time s) d m = Some p \<longrightarrow>
        (\<exists>p'. stored (cancel_time s') d m = Some p' \<and> p' \<le> p))"
  using steps_stored_mono [of cfg n s s' d m p] by (auto simp: stored_record_cancel)

theorem C5_witness:
  "stored (record_cancel [1 \<mapsto> [''fire'' \<mapsto> 5]] 1 ''fire'' 3) 1 ''fire'' = Some 3
   \<and> stored (record_cancel [1 \<mapsto> [''fire'' \<mapsto> 5]] 1 ''fire'' 7) 1 ''fire'' = Some 5
   \<and> stored (record_cancel [1 \<mapsto> [''fire'' \<mapsto> 5]] 1 ''fire'' 3) 2 ''fire'' = None
   \<and> stored (cancel_time st_c5) 1 ''fire'' = Some 5
   \<and> (\<exists>s' p'. steps cfg_fire 1 st_c5 = Some s' \<and> stored (cancel_time s') 1 ''fire'' = Some p' \<and> p' \<le> 5)"
proof -
  let ?ct = "[1 \<mapsto> [''fire'' \<mapsto> (5::int)]]"
  have s5: "stored ?ct 1 ''fire'' = Some 5" and s0: "stored ?ct 2 ''fire'' = None"
    by (simp_all add: stored_def)
  have a: "stored (record_cancel ?ct 1 ''fire'' 3) 1 ''fire'' = Some 3"
    using C5_record_cancel_min [where ct = ?ct and dev = 1 and dsc = "''fire''" and t = 3] s5
    by simp
  have b: "stored (record_cancel ?ct 1 ''fire'' 7) 1 ''fire'' = Some 5"
    using C5_record_cancel_min [where ct = ?ct and dev = 1 and dsc = "''fire''" and t = 7] s5
    by simp
  have c: "stored (record_cancel ?ct 1 ''fire'' 3) 2 ''fire'' = None"
    using C5_record_cancel_min [where ct = ?ct and dev = 1 and dsc = "''fire''" and t = 3
        and dev' = 2 and dsc' = "''fire''"] s0
    by simp
  have d: "stored (cancel_time st_c5) 1 ''fire'' = Some 5"
    by (simp add: st_c5_def stored_def)
  obtain s' where run: "steps cfg_fire 1 st_c5 = Some s'"
    by (simp add: st_c5_def cfg_fire_def step_def heappop_def)
  from C5_record_cancel_min [where cfg = cfg_fire and n = 1 and s = st_c5 and s' = s'
      and d = 1 and m = "''fire''" and p = 5] run d
  have "\<exists>p'. stored (cancel_time s') 1 ''fire'' = Some p' \<and> p' \<le> 5" by blast
  with a b c d run show ?thesis by blast
qed

section \<open>Cancellations are forwarded once\<close>

lemmas sent_cancel_line_neq_sym [simp] = sent_cancel_line_neq [THEN not_sym]

lemma sent_cancel_in_received: "sent_cancel_line t d m to \<notin> set (received_lines t' ev)"
  by (cases "kind ev") (auto simp: received_lines_def)

lemma sent_cancel_in_sent:
  "sent_cancel_line t d m to \<in> set (sent_lines cfg t' ev) \<Longrightarrow>
     (kind ev = RAISE_CANCEL \<or> kind ev = RECV_CANCEL) \<and> t = t' \<and> d = device ev \<and> m = desc ev"
  by (cases "kind ev") (auto simp: sent_lines_def split: if_splits)

lemma entry_key_fst: "entry_key a \<le> entry_key b \<Longrightarrow> fst a \<le> fst b"
  by (auto simp: entry_key_def)

lemma step_cancel_inv:
  assumes nn: "delays_nonneg cfg" and inv: "cancel_inv s" and st: "step cfg s = Some s'"
  shows "cancel_inv s'"
proof -
  from st obtain t n ev where
    m: "(t, n, ev) \<in> set (heap s)"
    and least: "\<forall>e \<in> set (heap s). entry_key (t, n, ev) \<le> entry_key e"
    and s': "s' = dispatch cfg t ev (s\<lparr>heap := remove1 (t, n, ev) (heap s)\<rparr>)"
    by (rule step_SomeE)
  let ?s0 = "s\<lparr>heap := remove1 (t, n, ev) (heap s)\<rparr>"
  have f0: "forwards ?s0 t ev = forwards s t ev" by (simp add: forwards_def)
  have o: "out s' = out s @ received_lines t ev @ (if forwards s t ev then sent_lines cfg t ev else [])"
    unfolding s' by (simp add: dispatch_out f0)
  have h: "set (heap s') \<subseteq> set (heap s) \<union>
      set (pushed (pushed_kind (kind ev)) t ev (seq s) (edges cfg (device ev)))"
    unfolding s' using set_remove1_subset [of "(t, n, ev)" "heap s"]
    by (auto simp: dispatch_heap)
  have c: "cancel_time s' =
     (if kind ev = RAISE_CANCEL \<or> kind ev = RECV_CANCEL
      then record_cancel (cancel_time s) (device ev) (desc ev) t else cancel_time s)"
    unfolding s' by (simp add: dispatch_cancel_time)
  have min_t: "\<forall>e \<in> set (heap s). t \<le> fst e"
    using least entry_key_fst by fastforce
  have new_t: "\<forall>e \<in> set (heap s'). t \<le> fst e"
  proof
    fix e assume "e \<in> set (heap s')"
    with h have "e \<in> set (heap s) \<or> e \<in> set (pushed (pushed_kind (kind ev)) t ev (seq s) (edges cfg (device ev)))"
      by auto
    then show "t \<le> fst e"
    proof
      assume "e \<in> set (heap s)" with min_t show ?thesis by simp
    next
      assume "e \<in> set (pushed (pushed_kind (kind ev)) t ev (seq s) (edges cfg (device ev)))"
      then obtain to delay where "(to, delay) \<in> set (edges cfg (device ev))" "fst e = t + delay"
        by (auto dest: pushed_times)
      with edges_nonneg [OF nn] show ?thesis by fastforce
    qed
  qed
  \<comment> \<open>the lines of the transcript: old ones, or sent now\<close>
  have cases: "sent_cancel_line t1 d m to \<in> set (out s') \<Longrightarrow>
      sent_cancel_line t1 d m to \<in> set (out s) \<or>
      (forwards s t ev \<and> (kind ev = RAISE_CANCEL \<or> kind ev = RECV_CANCEL)
         \<and> t1 = t \<and> d = device ev \<and> m = desc ev)" for t1 d m to
    unfolding o by (auto simp: sent_cancel_in_received dest: sent_cancel_in_sent split: if_splits)
  have old_le: "sent_cancel_line t1 d m to \<in> set (out s) \<Longrightarrow> t1 \<le> t" for t1 d m to
    using inv m unfolding cancel_inv_def by fastforce
  have old_stored: "sent_cancel_line t1 d m to \<in> set (out s) \<Longrightarrow>
      \<exists>p. stored (cancel_time s) d m = Some p \<and> p \<le> t1" for t1 d m to
    using inv unfolding cancel_inv_def by blast
  have mono: "stored (cancel_time s) d m = Some p \<Longrightarrow>
      \<exists>p'. stored (cancel_time s') d m = Some p' \<and> p' \<le> p" for d m p
    unfolding c by (auto simp: stored_record_cancel)
  have new_stored: "kind ev = RAISE_CANCEL \<or> kind ev = RECV_CANCEL \<Longrightarrow>
      \<exists>p. stored (cancel_time s') (device ev) (desc ev) = Some p \<and> p \<le> t"
    unfolding c by (auto simp: stored_record_cancel split: option.splits)
  have same: "t1 = t" if old: "sent_cancel_line t1 (device ev) (desc ev) to \<in> set (out s)"
    and f: "forwards s t ev" for t1 to
  proof -
    from old_stored [OF old] obtain p where p: "stored (cancel_time s) (device ev) (desc ev) = Some p" "p \<le> t1"
      by blast
    from f p(1) have "t \<le> p" by (simp add: forwards_def cancelled_before_stored)
    with p(2) old_le [OF old] show ?thesis by simp
  qed
  show ?thesis
    unfolding cancel_inv_def
  proof (intro conjI allI impI)
    fix t1 d m to assume l: "sent_cancel_line t1 d m to \<in> set (out s')"
    from cases [OF l] show "\<exists>p. stored (cancel_time s') d m = Some p \<and> p \<le> t1"
    proof
      assume old: "sent_cancel_line t1 d m to \<in> set (out s)"
      from old_stored [OF old] obtain p where "stored (cancel_time s) d m = Some p" "p \<le> t1" by blast
      with mono [of d m p] show ?thesis by force
    next
      assume "forwards s t ev \<and> (kind ev = RAISE_CANCEL \<or> kind ev = RECV_CANCEL)
         \<and> t1 = t \<and> d = device ev \<and> m = desc ev"
      with new_stored show ?thesis by simp
    qed
    from cases [OF l] have "t1 \<le> t" using old_le by blast
    with new_t show "\<forall>e \<in> set (heap s'). t1 \<le> fst e" by fastforce
  next
    fix t1 t2 d m to1 to2
    assume l1: "sent_cancel_line t1 d m to1 \<in> set (out s')"
      and l2: "sent_cancel_line t2 d m to2 \<in> set (out s')"
    from cases [OF l1] cases [OF l2] show "t1 = t2"
      using inv same unfolding cancel_inv_def by blast
  qed
qed

lemma init_cancel_inv: "cancel_inv (init_state cfg)"
  by (simp add: cancel_inv_def init_out)

text \<open>
  Claim C3, as the code has it: when no propagation delay is negative, any two
  \<^verbatim>\<open>SENT CANCELLATION\<close> lines of one device for one description in the transcript carry
  the same timestamp, so the set of the timestamps at which the device sends that
  cancellation has at most one element.
\<close>

theorem C3_cancellation_forwarded_once:
  assumes "delays_nonneg cfg" and "run_simulation cfg = Some tr"
    and "sent_cancel_line t1 d m to1 \<in> set tr" and "sent_cancel_line t2 d m to2 \<in> set tr"
  shows "t1 = t2"
proof -
  from assms(2) obtain s' where run: "loop cfg (init_state cfg) = Some s'"
    and tr: "tr = out s' @ [end_line (length_cfg cfg)]"
    by (auto simp: run_simulation_def split: option.splits)
  have "cancel_inv s' \<and> step cfg s' = None"
    using run init_cancel_inv
  proof (rule loop_invariant)
    fix a b assume "cancel_inv a" "step cfg a = Some b"
    with assms(1) show "cancel_inv b" by (rule step_cancel_inv)
  qed
  moreover from assms(3,4) tr have "sent_cancel_line t1 d m to1 \<in> set (out s')"
    "sent_cancel_line t2 d m to2 \<in> set (out s')" by simp_all
  ultimately show ?thesis unfolding cancel_inv_def by blast
qed

text \<open>
  A negative delay lets an event be popped after events of later times. Device 3 sends to
  device 1 with delay -2, device 1 sends to device 2 with delay 1, and devices 1 and 3
  both cancel \<^verbatim>\<open>fire\<close> at time 5: device 1 sends the cancellation at time 5, then
  receives it from device 3 at time 3 and sends it again.
\<close>

theorem C3_negative_delay_resends:
  "run_simulation
     \<lparr>length_cfg = 100, propagate = [1 \<mapsto> [(2, 1)], 3 \<mapsto> [(1, - 2)]],
      initial_events =
        [\<lparr>time = 5, kind = RAISE_CANCEL, device = 1, desc = ''fire'', src = None\<rparr>,
         \<lparr>time = 5, kind = RAISE_CANCEL, device = 3, desc = ''fire'', src = None\<rparr>]\<rparr>
   = Some [''@5: #1 SENT CANCELLATION TO #2: fire'',
           ''@5: #3 SENT CANCELLATION TO #1: fire'',
           ''@3: #1 RECEIVED CANCELLATION FROM #3: fire'',
           ''@3: #1 SENT CANCELLATION TO #2: fire'',
           ''@4: #2 RECEIVED CANCELLATION FROM #1: fire'',
           ''@6: #2 RECEIVED CANCELLATION FROM #1: fire'',
           ''@100: END'']
   \<and> sent_cancel_line 5 1 ''fire'' 2 = ''@5: #1 SENT CANCELLATION TO #2: fire''
   \<and> sent_cancel_line 3 1 ''fire'' 2 = ''@3: #1 SENT CANCELLATION TO #2: fire''"
  by code_simp

lemma run_twice: "run_simulation cfg_twice = Some tr_twice"
  by code_simp

lemma delays_nonneg_twice: "delays_nonneg cfg_twice"
  by (simp add: delays_nonneg_def cfg_twice_def)

theorem C3_witness:
  "delays_nonneg cfg_twice \<and> run_simulation cfg_twice = Some tr_twice
   \<and> sent_cancel_line 1 1 ''fire'' 2 \<in> set tr_twice
   \<and> sent_cancel_line 1 1 ''fire'' 3 \<in> set tr_twice"
proof -
  have a: "sent_cancel_line 1 1 ''fire'' 2 \<in> set tr_twice" by code_simp
  have b: "sent_cancel_line 1 1 ''fire'' 3 \<in> set tr_twice" by code_simp
  from C3_cancellation_forwarded_once [OF delays_nonneg_twice run_twice a b]
  show ?thesis using delays_nonneg_twice run_twice a b by simp
qed

section \<open>The order of the pops\<close>

lemma pushed_entry_seqs: "map entry_seq (pushed k t ev n es) = [n ..< n + length es]"
  by (induction k t ev n es rule: pushed.induct) (auto simp: entry_seq_def upt_rec)

lemma distinct_map_remove1: "distinct (map f xs) \<Longrightarrow> distinct (map f (remove1 x xs))"
proof (induction xs)
  case Nil then show ?case by simp
next
  case (Cons a xs)
  have "set (remove1 x xs) \<subseteq> set xs" by (rule set_remove1_subset)
  with Cons show ?case by auto
qed

text \<open>
  The numbers follow the order of the pushes: the initial events are numbered from 0 in
  the order of the list, and the entries an iteration pushes take the next numbers in the
  order of the edges (\<open>step_heap_seq\<close> below).
\<close>

lemma push_initial_seqs:
  "map entry_seq (heap (push_initial evs s)) = map entry_seq (heap s) @ [seq s ..< seq s + length evs]
   \<and> map (\<lambda>e. snd (snd e)) (heap (push_initial evs s)) = map (\<lambda>e. snd (snd e)) (heap s) @ evs
   \<and> seq (push_initial evs s) = seq s + length evs"
proof (induction evs arbitrary: s)
  case Nil
  then show ?case by simp
next
  case (Cons ev evs)
  let ?s = "s\<lparr>heap := heappush (heap s) (time ev, seq s, ev), seq := Suc (seq s)\<rparr>"
  have u: "[seq s ..< seq s + length (ev # evs)] = seq s # [seq ?s ..< seq ?s + length evs]"
    by (simp add: upt_conv_Cons del: upt_Suc)
  have h: "map entry_seq (heap ?s) = map entry_seq (heap s) @ [seq s]"
    "map (\<lambda>e. snd (snd e)) (heap ?s) = map (\<lambda>e. snd (snd e)) (heap s) @ [ev]"
    by (simp_all add: heappush_def entry_seq_def)
  from Cons [of ?s] show ?case
    unfolding u by (simp only: push_initial.simps h) simp
qed

lemma init_seqs:
  "map entry_seq (heap (init_state cfg)) = [0 ..< length (initial_events cfg)]"
  "map (\<lambda>e. snd (snd e)) (heap (init_state cfg)) = initial_events cfg"
  "seq (init_state cfg) = length (initial_events cfg)"
  using push_initial_seqs [of "initial_events cfg"
      "\<lparr>heap = [], seq = 0, cancel_time = Map.empty, out = []\<rparr>"]
  by (simp_all add: init_state_def)

lemma push_initial_seq_inv: "seq_inv s \<Longrightarrow> seq_inv (push_initial evs s)"
proof (induction evs arbitrary: s)
  case Nil then show ?case by simp
next
  case (Cons ev evs)
  show ?case
    by (simp, rule Cons.IH) (use Cons.prems in \<open>auto simp: seq_inv_def heappush_def entry_seq_def\<close>)
qed

lemma init_seq_inv: "seq_inv (init_state cfg)"
  unfolding init_state_def by (rule push_initial_seq_inv) (simp add: seq_inv_def)

lemma step_heap_seq:
  assumes "step cfg s = Some s'"
  obtains t n ev new where
    "(t, n, ev) \<in> set (heap s)"
    "\<forall>e \<in> set (heap s). entry_key (t, n, ev) \<le> entry_key e"
    "popped s = (t, n, ev)"
    "heap s' = remove1 (t, n, ev) (heap s) @ new"
    "map entry_seq new = [seq s ..< seq s']"
    "seq s \<le> seq s'"
proof -
  from assms have ne: "heap s \<noteq> []" by (auto simp: step_def split: if_splits)
  from assms obtain t n ev where
    m: "(t, n, ev) \<in> set (heap s)"
    and least: "\<forall>e \<in> set (heap s). entry_key (t, n, ev) \<le> entry_key e"
    and s': "s' = dispatch cfg t ev (s\<lparr>heap := remove1 (t, n, ev) (heap s)\<rparr>)"
    and p: "popped s = (t, n, ev)"
  proof -
    obtain t n ev where am: "arg_min_list entry_key (heap s) = (t, n, ev)"
      by (cases "arg_min_list entry_key (heap s)") auto
    have 1: "(t, n, ev) \<in> set (heap s)" using arg_min_list_in [OF ne, of entry_key] am by simp
    have 2: "\<forall>e \<in> set (heap s). entry_key (t, n, ev) \<le> entry_key e"
      using arg_min_list_least [of _ "heap s" entry_key] am by simp
    from assms ne am have 4: "s' = dispatch cfg t ev (s\<lparr>heap := remove1 (t, n, ev) (heap s)\<rparr>)"
      by (auto simp: step_def heappop_def Let_def split: if_splits)
    have 5: "popped s = (t, n, ev)" by (simp add: popped_def heappop_def am Let_def)
    from 1 2 4 5 show ?thesis by (rule that)
  qed
  let ?s0 = "s\<lparr>heap := remove1 (t, n, ev) (heap s)\<rparr>"
  define new where "new = (if forwards ?s0 t ev
      then pushed (pushed_kind (kind ev)) t ev (seq s) (edges cfg (device ev)) else [])"
  have h: "heap s' = remove1 (t, n, ev) (heap s) @ new"
    unfolding s' new_def by (simp add: dispatch_heap)
  have q: "seq s' = seq s + (if forwards ?s0 t ev then length (edges cfg (device ev)) else 0)"
    unfolding s' by (simp add: dispatch_seq)
  have "map entry_seq new = [seq s ..< seq s']"
    unfolding new_def q by (simp add: pushed_entry_seqs)
  moreover from q have "seq s \<le> seq s'" by simp
  ultimately show ?thesis using m least p h by (rule that [rotated 4])
qed

lemma step_seq_inv:
  assumes "seq_inv s" "step cfg s = Some s'"
  shows "seq_inv s'"
proof -
  from assms(2) obtain t n ev new where
    h: "heap s' = remove1 (t, n, ev) (heap s) @ new"
    and new: "map entry_seq new = [seq s ..< seq s']" and le: "seq s \<le> seq s'"
    by (rule step_heap_seq)
  have newset: "entry_seq ` set new = {seq s ..< seq s'}"
    using new by (metis set_map set_upt)
  have d: "distinct (map entry_seq (remove1 (t, n, ev) (heap s)))"
    using assms(1) by (simp add: seq_inv_def distinct_map_remove1)
  have sub: "set (remove1 (t, n, ev) (heap s)) \<subseteq> set (heap s)" by (rule set_remove1_subset)
  have old: "\<forall>e \<in> set (remove1 (t, n, ev) (heap s)). entry_seq e < seq s"
    using assms(1) sub by (auto simp: seq_inv_def)
  have "\<forall>e \<in> set (heap s'). entry_seq e < seq s'"
    unfolding h using old le newset by auto
  moreover have "distinct (map entry_seq (heap s'))"
    unfolding h using d new old newset by auto
  ultimately show ?thesis by (simp add: seq_inv_def)
qed

lemma steps_seq_inv: "steps cfg n s = Some s' \<Longrightarrow> seq_inv s \<Longrightarrow> seq_inv s'"
  by (induction n arbitrary: s) (auto split: option.splits dest: step_seq_inv)

lemma step_later_first:
  assumes inv: "seq_inv s" and st: "step cfg s = Some s'" and p: "popped s = (t, q, ev)"
  shows "later q t s'"
proof -
  from st p obtain new where
    m: "(t, q, ev) \<in> set (heap s)"
    and least: "\<forall>e \<in> set (heap s). entry_key (t, q, ev) \<le> entry_key e"
    and h: "heap s' = remove1 (t, q, ev) (heap s) @ new"
    and new: "map entry_seq new = [seq s ..< seq s']" and le: "seq s \<le> seq s'"
    by (auto elim!: step_heap_seq)
  from inv m have q: "q < seq s" by (auto simp: seq_inv_def entry_seq_def)
  have newset: "entry_seq ` set new = {seq s ..< seq s'}"
    using new by (metis set_map set_upt)
  from inv have dist: "distinct (map entry_seq (heap s))" by (simp add: seq_inv_def)
  then have dh: "distinct (heap s)" by (simp add: distinct_map)
  have "q < entry_seq e" if e: "e \<in> set (heap s')" and te: "fst e = t" for e
  proof (cases "e \<in> set new")
    case True
    with newset have "seq s \<le> entry_seq e" by auto
    with q show ?thesis by simp
  next
    case False
    with e h have "e \<in> set (remove1 (t, q, ev) (heap s))" by simp
    with dh have eh: "e \<in> set (heap s)" and ne: "e \<noteq> (t, q, ev)" by auto
    from least eh te have "q \<le> entry_seq e" by (auto simp: entry_key_def entry_seq_def)
    moreover have "entry_seq e \<noteq> q"
    proof
      assume "entry_seq e = q"
      then have "entry_seq e = entry_seq (t, q, ev)" by (simp add: entry_seq_def)
      with dist eh m have "e = (t, q, ev)" by (meson distinct_map inj_onD)
      with ne show False by simp
    qed
    ultimately show ?thesis by simp
  qed
  with q le show ?thesis by (simp add: later_def)
qed

lemma step_later:
  assumes "later q t s" "step cfg s = Some s'"
  shows "later q t s'"
proof -
  from assms(2) obtain t' n ev new where
    h: "heap s' = remove1 (t', n, ev) (heap s) @ new"
    and new: "map entry_seq new = [seq s ..< seq s']" and le: "seq s \<le> seq s'"
    by (rule step_heap_seq)
  have newset: "entry_seq ` set new = {seq s ..< seq s'}"
    using new by (metis set_map set_upt)
  have sub: "set (remove1 (t', n, ev) (heap s)) \<subseteq> set (heap s)" by (rule set_remove1_subset)
  from assms(1) have q: "q < seq s" and old: "\<forall>e \<in> set (heap s). fst e = t \<longrightarrow> q < entry_seq e"
    by (simp_all add: later_def)
  have "q < entry_seq e" if e: "e \<in> set (heap s')" and te: "fst e = t" for e
  proof (cases "e \<in> set new")
    case True
    with newset have "seq s \<le> entry_seq e" by auto
    with q show ?thesis by simp
  next
    case False
    with e h sub have "e \<in> set (heap s)" by auto
    with old te show ?thesis by simp
  qed
  with q le show ?thesis by (simp add: later_def)
qed

lemma steps_later: "steps cfg n s = Some s' \<Longrightarrow> later q t s \<Longrightarrow> later q t s'"
  by (induction n arbitrary: s) (auto split: option.splits dest: step_later)

lemma steps_add: "steps cfg (i + k) s = Some s' \<Longrightarrow> \<exists>si. steps cfg i s = Some si \<and> steps cfg k si = Some s'"
  by (induction i arbitrary: s) (auto split: option.splits)

lemma popped_in: "heap s \<noteq> [] \<Longrightarrow> popped s \<in> set (heap s)"
  by (simp add: popped_def heappop_def arg_min_list_in Let_def)

lemma pop_order:
  assumes i: "steps cfg i (init_state cfg) = Some si"
    and j: "steps cfg j (init_state cfg) = Some sj"
    and lt: "i < j" and nj: "heap sj \<noteq> []"
    and same: "fst (popped si) = fst (popped sj)"
  shows "entry_seq (popped si) < entry_seq (popped sj)"
proof -
  from lt obtain k where k: "j = i + Suc k" by (auto simp: less_iff_Suc_add)
  from j [unfolded k] steps_add obtain si' where "steps cfg i (init_state cfg) = Some si'"
    and rest: "steps cfg (Suc k) si' = Some sj" by blast
  with i have "si' = si" by simp
  with rest obtain s1 where st: "step cfg si = Some s1" and r: "steps cfg k s1 = Some sj"
    by (auto split: option.splits)
  obtain t q ev where p: "popped si = (t, q, ev)" by (cases "popped si") auto
  have "seq_inv si" using i init_seq_inv by (rule steps_seq_inv)
  from step_later_first [OF this st p] have "later q t s1" .
  from steps_later [OF r this] have "later q t sj" .
  with popped_in [OF nj] same p show ?thesis
    by (auto simp: later_def entry_seq_def)
qed

text \<open>
  Claim C6: take the entries popped by two iterations of a run of \<^verbatim>\<open>_run_simulation\<close>,
  the \<open>i\<close>-th and the \<open>j\<close>-th. When the two entries have the same time and the first was
  pushed before the second (it has the smaller sequence number), it is popped before the
  second, whichever part of the code pushed them: the initial loading and the four
  branches all push with the one counter.
\<close>

theorem C6_same_time_fifo:
  assumes "steps cfg i (init_state cfg) = Some si"
    and "steps cfg j (init_state cfg) = Some sj"
    and "heap si \<noteq> []" and "heap sj \<noteq> []"
    and "fst (popped si) = fst (popped sj)"
    and "entry_seq (popped si) < entry_seq (popped sj)"
  shows "i < j"
proof (rule ccontr)
  assume "\<not> i < j"
  then consider "i = j" | "j < i" by linarith
  then show False
  proof cases
    case 1
    with assms(1,2) have "si = sj" by simp
    with assms(6) show False by simp
  next
    case 2
    from pop_order [OF assms(2) assms(1) 2 assms(3)] assms(5,6) show False by simp
  qed
qed

lemma twice_0:
  "steps cfg_twice 0 (init_state cfg_twice) = Some (init_state cfg_twice)"
  "heap (init_state cfg_twice) \<noteq> []"
  "popped (init_state cfg_twice) = (1, 0, ev_twice)"
  by (simp, code_simp, code_simp)

lemma twice_1:
  "\<exists>s. steps cfg_twice 1 (init_state cfg_twice) = Some s \<and> heap s \<noteq> []
       \<and> popped s = (1, 1, ev_twice)"
proof -
  have "map_option (\<lambda>s. (heap s \<noteq> [], popped s)) (steps cfg_twice 1 (init_state cfg_twice))
      = Some (True, (1, 1, ev_twice))"
    by code_simp
  then show ?thesis by auto
qed

theorem C6_witness:
  "\<exists>si sj. steps cfg_twice 0 (init_state cfg_twice) = Some si
      \<and> steps cfg_twice 1 (init_state cfg_twice) = Some sj
      \<and> heap si \<noteq> [] \<and> heap sj \<noteq> []
      \<and> fst (popped si) = fst (popped sj)
      \<and> entry_seq (popped si) < entry_seq (popped sj)
      \<and> (0::nat) < 1"
proof -
  from twice_1 obtain sj where sj: "steps cfg_twice 1 (init_state cfg_twice) = Some sj"
    "heap sj \<noteq> []" "popped sj = (1, 1, ev_twice)" by blast
  have t: "fst (popped (init_state cfg_twice)) = fst (popped sj)"
    and q: "entry_seq (popped (init_state cfg_twice)) < entry_seq (popped sj)"
    by (simp_all add: twice_0 sj entry_seq_def)
  from C6_same_time_fifo [OF twice_0(1) sj(1) twice_0(2) sj(2) t q]
  show ?thesis using twice_0 sj t q by blast
qed

section \<open>Cancellations at the same time\<close>

lemma step_popped:
  "step cfg s = Some s' \<Longrightarrow> popped s = (t, q, ev) \<Longrightarrow>
     s' = dispatch cfg t ev (s\<lparr>heap := remove1 (t, q, ev) (heap s)\<rparr>)"
  by (auto simp: step_def popped_def heappop_def Let_def split: if_splits)

lemma cancel_emits:
  assumes k: "kind ev = RAISE_CANCEL \<or> kind ev = RECV_CANCEL"
    and st: "step cfg s = Some s'" and p: "popped s = (t, q, ev)"
    and rec: "stored (cancel_time s') (device ev) (desc ev) = Some t"
  shows "out s' = out s @ received_lines t ev @
           map (\<lambda>(to, delay). sent_cancel_line t (device ev) (desc ev) to) (edges cfg (device ev))"
proof -
  from st p have s': "s' = dispatch cfg t ev (s\<lparr>heap := remove1 (t, q, ev) (heap s)\<rparr>)"
    by (rule step_popped)
  let ?s0 = "s\<lparr>heap := remove1 (t, q, ev) (heap s)\<rparr>"
  from rec k have "case stored (cancel_time s) (device ev) (desc ev) of None \<Rightarrow> True | Some prev \<Rightarrow> t \<le> prev"
    unfolding s' by (auto simp: dispatch_cancel_time stored_record_cancel min_def split: option.splits if_splits)
  then have f: "forwards ?s0 t ev"
    by (auto simp: forwards_def cancelled_before_stored split: option.splits)
  from k have sl: "sent_lines cfg t ev =
      map (\<lambda>(to, delay). sent_cancel_line t (device ev) (desc ev) to) (edges cfg (device ev))"
    by (auto simp: sent_lines_def)
  show ?thesis unfolding s' using f sl by (simp add: dispatch_out)
qed

text \<open>
  Claim C10, as the code has it: let two iterations pop cancellation events, raised or
  received, of one device \<open>d\<close> for one description \<open>m\<close> at the same time \<open>t\<close>, let the
  first record exactly \<open>t\<close>, and let \<open>t\<close> still be the time stored when the second is
  popped (as it is when the second follows at once). Then neither is suppressed: each
  appends, after the line of its receipt if it is a received one, one
  \<^verbatim>\<open>SENT CANCELLATION\<close> line for every outgoing edge of \<open>d\<close>.
\<close>

theorem C10_same_time_cancels_both_forward:
  assumes "kind ev1 = RAISE_CANCEL \<or> kind ev1 = RECV_CANCEL"
    and "kind ev2 = RAISE_CANCEL \<or> kind ev2 = RECV_CANCEL"
    and "device ev1 = d" "desc ev1 = m" "device ev2 = d" "desc ev2 = m"
    and "step cfg si = Some si'" "popped si = (t, q1, ev1)"
    and "step cfg sj = Some sj'" "popped sj = (t, q2, ev2)"
    and "stored (cancel_time si') d m = Some t"
    and "stored (cancel_time sj) d m = Some t"
  shows "out si' = out si @ received_lines t ev1 @
           map (\<lambda>(to, delay). sent_cancel_line t d m to) (edges cfg d)
       \<and> out sj' = out sj @ received_lines t ev2 @
           map (\<lambda>(to, delay). sent_cancel_line t d m to) (edges cfg d)"
proof
  from assms(1,7,8,11) assms(3,4)
  show "out si' = out si @ received_lines t ev1 @
           map (\<lambda>(to, delay). sent_cancel_line t d m to) (edges cfg d)"
    using cancel_emits [of ev1 cfg si si' t q1] by simp
  from assms(9,10) have sj': "sj' = dispatch cfg t ev2 (sj\<lparr>heap := remove1 (t, q2, ev2) (heap sj)\<rparr>)"
    by (rule step_popped)
  have "stored (cancel_time sj') d m = Some t"
    unfolding sj' using assms(2,5,6,12)
    by (auto simp: dispatch_cancel_time stored_record_cancel)
  with assms(2,9,10) assms(5,6)
  show "out sj' = out sj @ received_lines t ev2 @
           map (\<lambda>(to, delay). sent_cancel_line t d m to) (edges cfg d)"
    using cancel_emits [of ev2 cfg sj sj' t q2] by simp
qed

lemma twice_2:
  "\<exists>s1 s2. step cfg_twice (init_state cfg_twice) = Some s1 \<and> step cfg_twice s1 = Some s2
      \<and> popped s1 = (1, 1, ev_twice) \<and> stored (cancel_time s1) 1 ''fire'' = Some 1"
proof -
  have 1: "map_option (\<lambda>s. (popped s, stored (cancel_time s) 1 ''fire''))
        (steps cfg_twice 1 (init_state cfg_twice)) = Some ((1, 1, ev_twice), Some 1)"
    by code_simp
  have 2: "map_option (\<lambda>s. ()) (steps cfg_twice 2 (init_state cfg_twice)) = Some ()"
    by code_simp
  from 2 obtain s2 where "steps cfg_twice (Suc (Suc 0)) (init_state cfg_twice) = Some s2"
    by (auto simp: numeral_2_eq_2)
  then obtain s1 where s: "step cfg_twice (init_state cfg_twice) = Some s1" "step cfg_twice s1 = Some s2"
    by (auto split: option.splits)
  with 1 show ?thesis by (auto split: option.splits)
qed

theorem C10_witness:
  "\<exists>s1 s2. step cfg_twice (init_state cfg_twice) = Some s1 \<and> step cfg_twice s1 = Some s2
      \<and> popped (init_state cfg_twice) = (1, 0, ev_twice) \<and> popped s1 = (1, 1, ev_twice)
      \<and> stored (cancel_time s1) 1 ''fire'' = Some 1
      \<and> out s1 = [''@1: #1 SENT CANCELLATION TO #2: fire'', ''@1: #1 SENT CANCELLATION TO #3: fire'']
      \<and> out s2 = out s1 @
           [''@1: #1 SENT CANCELLATION TO #2: fire'', ''@1: #1 SENT CANCELLATION TO #3: fire'']"
proof -
  from twice_2 obtain s1 s2 where s: "step cfg_twice (init_state cfg_twice) = Some s1"
    "step cfg_twice s1 = Some s2" "popped s1 = (1, 1, ev_twice)"
    "stored (cancel_time s1) 1 ''fire'' = Some 1" by blast
  have k: "kind ev_twice = RAISE_CANCEL \<or> kind ev_twice = RECV_CANCEL"
    and d: "device ev_twice = 1" and m: "desc ev_twice = ''fire''"
    by (simp_all add: ev_twice_def)
  have l: "received_lines 1 ev_twice @
      map (\<lambda>(to, delay). sent_cancel_line 1 1 ''fire'' to) (edges cfg_twice 1)
      = [''@1: #1 SENT CANCELLATION TO #2: fire'', ''@1: #1 SENT CANCELLATION TO #3: fire'']"
    by code_simp
  from C10_same_time_cancels_both_forward [OF k k d m d m s(1) twice_0(3) s(2) s(3) s(4) s(4)]
  have "out s1 = [''@1: #1 SENT CANCELLATION TO #2: fire'', ''@1: #1 SENT CANCELLATION TO #3: fire'']"
    and "out s2 = out s1 @
           [''@1: #1 SENT CANCELLATION TO #2: fire'', ''@1: #1 SENT CANCELLATION TO #3: fire'']"
    unfolding l by (simp_all add: init_out)
  with s twice_0(3) show ?thesis by blast
qed

text \<open>
  Without the condition on the time stored, both events can be suppressed: when device 1
  has cancelled \<^verbatim>\<open>fire\<close> at time 0, its two cancellations of \<^verbatim>\<open>fire\<close> at time 1 send
  nothing, since the time stored stays 0.
\<close>

theorem C10_earlier_cancellation_suppresses_both:
  "run_simulation
     \<lparr>length_cfg = 100, propagate = [1 \<mapsto> [(2, 3)]],
      initial_events =
        [\<lparr>time = 0, kind = RAISE_CANCEL, device = 1, desc = ''fire'', src = None\<rparr>,
         \<lparr>time = 1, kind = RAISE_CANCEL, device = 1, desc = ''fire'', src = None\<rparr>,
         \<lparr>time = 1, kind = RAISE_CANCEL, device = 1, desc = ''fire'', src = None\<rparr>]\<rparr>
   = Some [''@0: #1 SENT CANCELLATION TO #2: fire'',
           ''@3: #2 RECEIVED CANCELLATION FROM #1: fire'',
           ''@100: END'']"
  by code_simp

section \<open>Determinism\<close>

lemma smallest_unique:
  assumes inv: "seq_inv s" and sm: "smallest e (heap s)"
  shows "arg_min_list entry_key (heap s) = e"
proof -
  from sm have e: "e \<in> set (heap s)" and le: "\<forall>x \<in> set (heap s). entry_key e \<le> entry_key x"
    by (simp_all add: smallest_def)
  then have ne: "heap s \<noteq> []" by auto
  let ?m = "arg_min_list entry_key (heap s)"
  have m: "?m \<in> set (heap s)" using ne by (rule arg_min_list_in)
  have "entry_key ?m \<le> entry_key e" using e by (rule arg_min_list_least)
  with le m have "entry_key ?m = entry_key e" by (simp add: order.antisym)
  then have "entry_seq ?m = entry_seq e" by (simp add: entry_key_def entry_seq_def)
  moreover from inv have "inj_on entry_seq (set (heap s))" by (simp add: seq_inv_def distinct_map)
  ultimately show ?thesis using m e by (auto dest: inj_onD)
qed

lemma runs_run_from:
  "runs cfg s tr \<Longrightarrow> seq_inv s \<Longrightarrow> run_from cfg s = Some tr"
proof (induction rule: runs.induct)
  case (exhausted s)
  then have "step cfg s = None" by (simp add: step_def)
  then show ?case by (simp add: run_from_def loop_stop)
next
  case (horizon t n ev s)
  from smallest_unique [OF horizon.prems horizon.hyps(1)] horizon.hyps
  have "step cfg s = None" by (auto simp: step_def heappop_def Let_def smallest_def)
  then show ?case by (simp add: run_from_def loop_stop)
next
  case (dispatched t n ev s tr)
  let ?s' = "dispatch cfg t ev (s\<lparr>heap := remove1 (t, n, ev) (heap s)\<rparr>)"
  from smallest_unique [OF dispatched.prems dispatched.hyps(1)] dispatched.hyps
  have st: "step cfg s = Some ?s'" by (auto simp: step_def heappop_def Let_def smallest_def)
  from step_seq_inv [OF dispatched.prems st] have "seq_inv ?s'" .
  from dispatched.IH [OF this] show ?case
    by (simp add: run_from_def loop_continue [OF st])
qed

lemma run_from_runs:
  assumes "loop cfg s = Some s'"
  shows "runs cfg s (out s' @ [end_line (length_cfg cfg)])"
proof -
  have "cfg = cfg \<longrightarrow> runs cfg s (out s' @ [end_line (length_cfg cfg)])"
  proof (rule loop.raw_induct
      [where P = "\<lambda>c a y. c = cfg \<longrightarrow> runs cfg a (out y @ [end_line (length_cfg cfg)])", OF _ assms])
    fix f c a y
    assume ih: "\<And>c a y. f c a = Some y \<Longrightarrow> c = cfg \<longrightarrow> runs cfg a (out y @ [end_line (length_cfg cfg)])"
      and eq: "(case step c a of None \<Rightarrow> Some a | Some b \<Rightarrow> f c b) = Some y"
    show "c = cfg \<longrightarrow> runs cfg a (out y @ [end_line (length_cfg cfg)])"
    proof
      assume c: "c = cfg"
      show "runs cfg a (out y @ [end_line (length_cfg cfg)])"
      proof (cases "step cfg a")
        case None
        with eq c have y: "y = a" by simp
        show ?thesis
        proof (cases "heap a = []")
          case True
          then show ?thesis unfolding y by (rule runs.exhausted)
        next
          case False
          obtain t n ev where am: "arg_min_list entry_key (heap a) = (t, n, ev)"
            by (cases "arg_min_list entry_key (heap a)") auto
          have sm: "smallest (t, n, ev) (heap a)"
            unfolding smallest_def using arg_min_list_in [OF False, of entry_key]
              arg_min_list_least [of _ "heap a" entry_key] am by auto
          from None False am have "length_cfg cfg \<le> t"
            by (auto simp: step_def heappop_def Let_def split: if_splits)
          with sm show ?thesis unfolding y by (rule runs.horizon)
        qed
      next
        case (Some b)
        with eq c have fb: "f cfg b = Some y" by simp
        from Some obtain t n ev where
          "(t, n, ev) \<in> set (heap a)"
          "\<forall>e \<in> set (heap a). entry_key (t, n, ev) \<le> entry_key e"
          "t < length_cfg cfg"
          "b = dispatch cfg t ev (a\<lparr>heap := remove1 (t, n, ev) (heap a)\<rparr>)"
          by (rule step_SomeE)
        with ih [OF fb] show ?thesis
          by (auto intro: runs.dispatched simp: smallest_def)
      qed
    qed
  qed
  then show ?thesis by simp
qed

lemma run_simulation_run_from: "run_simulation cfg = run_from cfg (init_state cfg)"
  by (simp add: run_simulation_def run_from_def split: option.splits)

text \<open>
  Claim C9: two runs on equal configurations return equal transcripts, whichever smallest
  item \<^verbatim>\<open>heappop\<close> returns in either run: the sequence numbers in the heap are distinct, so
  the smallest item is unique, and the transcript is the one \<open>run_simulation\<close> computes.
\<close>

theorem C9_deterministic:
  assumes "cfg' = cfg" and "runs cfg (init_state cfg) tr" and "runs cfg' (init_state cfg') tr'"
  shows "tr' = tr \<and> run_simulation cfg = Some tr"
proof -
  from runs_run_from [OF assms(2) init_seq_inv] have 1: "run_simulation cfg = Some tr"
    by (simp add: run_simulation_run_from)
  from runs_run_from [OF assms(3) init_seq_inv] have "run_simulation cfg' = Some tr'"
    by (simp add: run_simulation_run_from)
  with 1 assms(1) show ?thesis by simp
qed

lemma run_simulation_runs: "run_simulation cfg = Some tr \<Longrightarrow> runs cfg (init_state cfg) tr"
  by (auto simp: run_simulation_def split: option.splits intro: run_from_runs)

theorem C9_witness:
  "runs cfg_fire (init_state cfg_fire) tr_fire \<and> run_simulation cfg_fire = Some tr_fire"
proof -
  have r: "runs cfg_fire (init_state cfg_fire) tr_fire"
    using run_fire by (rule run_simulation_runs)
  from C9_deterministic [OF refl r r] r show ?thesis by simp
qed

section \<open>Configuration errors\<close>

lemma parse_line_unknown:
  assumes "unknown_tag_line raw"
  shows "\<exists>e. parse_line st raw = Inl e"
proof -
  from assms obtain tag where t: "tag_of raw = Some tag" and u: "tag \<notin> set known_tags"
    by (auto simp: unknown_tag_line_def split: option.splits)
  from t obtain c cs rest where l: "str_strip raw = c # cs" "c \<noteq> CHR ''#''"
    and sp: "str_split (c # cs) = tag # rest"
    by (auto simp: tag_of_def split: list.splits if_splits)
  from u have "tag \<noteq> ''LENGTH''" "tag \<noteq> ''DEVICE''" "tag \<noteq> ''PROPAGATE''"
    "tag \<noteq> ''ALERT''" "tag \<noteq> ''CANCEL''"
    by (auto simp: known_tags_def)
  with l sp show ?thesis by (simp add: parse_line_def Let_def)
qed

lemma bind_result_Inr:
  "bind_result r f = Inr y \<Longrightarrow> \<exists>x. r = Inr x \<and> f x = Inr y"
  by (cases r) (simp_all add: bind_result_def)

lemma raise_event_length: "raise_event k parts st = Inr st' \<Longrightarrow> p_length st' = p_length st"
  unfolding raise_event_def by (auto dest!: bind_result_Inr)

lemma parse_line_length:
  assumes "\<not> length_line raw" and "parse_line st raw = Inr st'"
  shows "p_length st' = p_length st"
proof (cases "str_strip raw")
  case Nil
  with assms(2) show ?thesis by (simp add: parse_line_def)
next
  case (Cons c cs)
  show ?thesis
  proof (cases "c = CHR ''#''")
    case True
    with Cons assms(2) show ?thesis by (simp add: parse_line_def)
  next
    case False
    show ?thesis
    proof (cases "str_split (c # cs)")
      case Nil
      with Cons False assms(2) show ?thesis by (simp add: parse_line_def)
    next
      case (Cons tag rest)
      with \<open>str_strip raw = c # cs\<close> False assms(1) have "tag \<noteq> ''LENGTH''"
        by (simp add: length_line_def tag_of_def)
      with Cons \<open>str_strip raw = c # cs\<close> False assms(2) show ?thesis
        by (auto simp: parse_line_def Let_def split: if_splits
            dest!: bind_result_Inr raise_event_length)
    qed
  qed
qed

lemma parse_lines_unknown:
  "\<exists>raw \<in> set lines. unknown_tag_line raw \<Longrightarrow> \<exists>e. parse_lines lines st = Inl e"
proof (induction lines arbitrary: st)
  case Nil
  then show ?case by simp
next
  case (Cons raw lines)
  show ?case
  proof (cases "parse_line st raw")
    case (Inl e)
    then show ?thesis by simp
  next
    case (Inr st')
    with parse_line_unknown [of raw st] have "\<not> unknown_tag_line raw" by auto
    with Cons.prems have "\<exists>raw \<in> set lines. unknown_tag_line raw" by simp
    from Cons.IH [OF this, of st'] Inr show ?thesis by simp
  qed
qed

lemma parse_lines_no_length:
  "\<forall>raw \<in> set lines. \<not> length_line raw \<Longrightarrow> parse_lines lines st = Inr st'
     \<Longrightarrow> p_length st' = p_length st"
proof (induction lines arbitrary: st)
  case Nil
  then show ?case by simp
next
  case (Cons raw lines)
  from Cons.prems(2) obtain st1 where 1: "parse_line st raw = Inr st1"
    and 2: "parse_lines lines st1 = Inr st'"
    by (auto split: sum.splits)
  from Cons.prems(1) have "\<not> length_line raw" by simp
  from parse_line_length [OF this 1] Cons.IH [OF _ 2] Cons.prems(1) show ?case by simp
qed

text \<open>
  Claim C8: when some line of the input has a tag the parser does not know, or no line is
  a \<^verbatim>\<open>LENGTH\<close> line, \<^verbatim>\<open>_parse_input_lines\<close> raises an exception instead of returning a
  configuration, and \<^verbatim>\<open>main\<close> ends with that exception: the simulation is not called and
  no line is printed.
\<close>

theorem C8_configuration_errors:
  assumes "(\<exists>raw \<in> set lines. unknown_tag_line raw) \<or> (\<forall>raw \<in> set lines. \<not> length_line raw)"
  shows "\<exists>e. parse_input_lines lines = Inl e \<and> main (Some lines) = Raised e"
proof -
  let ?st0 = "\<lparr>p_length = None, p_devices = {}, p_propagate = Map.empty, p_initial = []\<rparr>"
  have "\<exists>e. parse_input_lines lines = Inl e"
  proof (cases "parse_lines lines ?st0")
    case (Inl e)
    then show ?thesis by (simp add: parse_input_lines_def)
  next
    case (Inr st)
    with parse_lines_unknown [of lines ?st0] have "\<not> (\<exists>raw \<in> set lines. unknown_tag_line raw)"
      by auto
    with assms have "\<forall>raw \<in> set lines. \<not> length_line raw" by simp
    from parse_lines_no_length [OF this Inr] have "p_length st = None" by simp
    with Inr show ?thesis by (simp add: parse_input_lines_def)
  qed
  then show ?thesis by (auto simp: main_def)
qed

theorem C8_witness:
  "unknown_tag_line ''BOGUS 1'' \<and> ''BOGUS 1'' \<in> set file_bogus
   \<and> main (Some file_bogus) = Raised (Unknown_line ''BOGUS 1'')
   \<and> \<not> list_ex length_line file_no_length
   \<and> main (Some file_no_length) = Raised Missing_LENGTH"
proof -
  have u: "unknown_tag_line ''BOGUS 1''" by code_simp
  have m: "''BOGUS 1'' \<in> set file_bogus" by (simp add: file_bogus_def)
  have n: "\<not> list_ex length_line file_no_length" by code_simp
  have "(case parse_input_lines file_bogus of Inl e \<Rightarrow> Some e | Inr cfg \<Rightarrow> None)
      = Some (Unknown_line ''BOGUS 1'')" by code_simp
  then have p1: "parse_input_lines file_bogus = Inl (Unknown_line ''BOGUS 1'')"
    by (simp split: sum.splits)
  have "(case parse_input_lines file_no_length of Inl e \<Rightarrow> Some e | Inr cfg \<Rightarrow> None)
      = Some Missing_LENGTH" by code_simp
  then have p2: "parse_input_lines file_no_length = Inl Missing_LENGTH"
    by (simp split: sum.splits)
  from u m have "(\<exists>raw \<in> set file_bogus. unknown_tag_line raw)
      \<or> (\<forall>raw \<in> set file_bogus. \<not> length_line raw)" by blast
  from C8_configuration_errors [OF this] p1
  have a: "main (Some file_bogus) = Raised (Unknown_line ''BOGUS 1'')" by auto
  from n have "(\<exists>raw \<in> set file_no_length. unknown_tag_line raw)
      \<or> (\<forall>raw \<in> set file_no_length. \<not> length_line raw)" by (simp add: list_ex_iff)
  from C8_configuration_errors [OF this] p2
  have b: "main (Some file_no_length) = Raised Missing_LENGTH" by auto
  from u m n a b show ?thesis by simp
qed

text \<open>The input file of the scenario with one edge is parsed and run.\<close>

lemma main_fire: "main (Some file_fire) = Printed tr_fire"
  by code_simp

end
